theory Spec2Isabelle
  imports Complex_Main "HOL-Library.Multiset"
begin

section \<open>Digit recogniser notebooks: data model\<close>

text \<open>
  The repository holds two notebooks (\<^verbatim>\<open>CNN_1\<close>, kept as \<^verbatim>\<open>src/unnamed/part_000\<close>, and
  \<^verbatim>\<open>CNN_2.ipynb\<close>). Each is a straight-line script: read two CSV tables, reshape and
  normalise the pixels, split, train, predict, write a table. The cells are modelled one
  definition per statement, under the name of the variable the statement assigns.

  The notebooks call numpy, pandas, scikit-learn and Keras. What those calls do is not
  code of the repository; each call is modelled by a definition named after the library
  function, which follows the library's own algorithm where a claim depends on it
  (\<^verbatim>\<open>reshape\<close>, \<^verbatim>\<open>argmax\<close>, \<^verbatim>\<open>arange\<close>, \<^verbatim>\<open>train_test_split\<close>, float32 and float64
  rounding), and is a parameter where it is numeric training code (the network, its
  training step, the random number generator, the image transform).
\<close>

datatype error = ValueError | IndexError

text \<open>
  A pandas \<^verbatim>\<open>DataFrame\<close> of integers: the column names and \<^verbatim>\<open>df.values\<close>, the rows in
  file order. Every row of a DataFrame has one cell per column.
\<close>

record frame =
  columns :: "string list"
  df_values :: "int list list"

definition rectangular :: "frame \<Rightarrow> bool" where
  "rectangular df = list_all (\<lambda>r. length r = length (columns df)) (df_values df)"

text \<open>\<^verbatim>\<open>df.iloc[:, k:].values\<close> and \<^verbatim>\<open>df.iloc[:, k].values\<close>; the second raises IndexError
  when the frame has no column \<open>k\<close>.\<close>

definition iloc_from :: "nat \<Rightarrow> frame \<Rightarrow> int list list" where
  "iloc_from k df = map (drop k) (df_values df)"

definition iloc_col :: "nat \<Rightarrow> frame \<Rightarrow> error + int list" where
  "iloc_col k df =
     (if k < length (columns df) then Inr (map (\<lambda>r. r ! k) (df_values df))
      else Inl IndexError)"

section \<open>Loader: reshape\<close>

text \<open>
  An image tensor of shape \<open>(28, 28, 1)\<close> is a list of rows, each a list of pixels, each a
  list of channels. \<^verbatim>\<open>a.reshape((-1, 28, 28, 1))\<close> reads the two-dimensional array in
  row-major order and cuts it into blocks of \<open>28 * 28 * 1\<close> values; numpy raises ValueError
  when the number of values is not a multiple of the block size, and checks nothing else.
\<close>

type_synonym 'a image = "'a list list list"

definition chunks :: "nat \<Rightarrow> 'a list \<Rightarrow> 'a list list" where
  "chunks n xs = map (\<lambda>k. take n (drop (k * n) xs)) [0..<length xs div n]"

definition to_image :: "'a list \<Rightarrow> 'a image" where
  "to_image px = map (map (\<lambda>p. [p])) (chunks 28 px)"

definition reshape :: "'a list list \<Rightarrow> error + 'a image list" where
  "reshape a =
     (let flat = concat a in
      if length flat mod (28 * 28 * 1) \<noteq> 0 then Inl ValueError
      else Inr (map to_image (chunks (28 * 28 * 1) flat)))"

text \<open>The shape of a tensor: \<open>has_shape h w c t\<close> says that \<open>t\<close> is \<open>h \<times> w \<times> c\<close>.\<close>

definition has_shape :: "nat \<Rightarrow> nat \<Rightarrow> nat \<Rightarrow> 'a image \<Rightarrow> bool" where
  "has_shape h w c t =
     (length t = h \<and> list_all (\<lambda>r. length r = w \<and> list_all (\<lambda>p. length p = c) r) t)"

text \<open>The values of a tensor in row-major order, and pixel \<open>(r, c)\<close>, channel 0, of an
  image.\<close>

definition pixels_of :: "'a image \<Rightarrow> 'a list" where
  "pixels_of t = concat (concat t)"

definition pixel :: "'a image \<Rightarrow> nat \<Rightarrow> nat \<Rightarrow> 'a" where
  "pixel t r c = t ! r ! c ! 0"

section \<open>Floating point: round to nearest, ties to even\<close>

text \<open>
  The notebooks compute in IEEE 754 arithmetic at two places: \<^verbatim>\<open>astype('float32') / 255\<close> on
  the pixels (binary32) and, inside \<^verbatim>\<open>train_test_split\<close>, \<^verbatim>\<open>ceil(test_size * n_samples)\<close>
  (binary64). A float is modelled as the rational number it denotes, and an operation as
  the exact operation followed by rounding to \<open>p\<close> significant bits: \<open>fl p x\<close> is the multiple
  of \<open>ulp p x\<close> nearest to \<open>x\<close>, the even one on a tie. The exponent range is not bounded
  (no overflow to infinity, no subnormal numbers), which is exact for the magnitudes met
  here: pixel quotients between \<open>1/255\<close> and \<open>1\<close>, sample counts below \<open>2^53\<close>.
\<close>

fun bit_length :: "nat \<Rightarrow> nat" where
  "bit_length n = (if n = 0 then 0 else Suc (bit_length (n div 2)))"

declare bit_length.simps [simp del]

text \<open>\<open>exponent x\<close> is \<open>\<lfloor>log\<^sub>2 x\<rfloor>\<close> for \<open>x > 0\<close>.\<close>

definition exponent :: "rat \<Rightarrow> int" where
  "exponent x =
     (if 1 \<le> x then int (bit_length (nat \<lfloor>x\<rfloor>)) - 1
      else - int (bit_length (nat (\<lceil>1 / x\<rceil> - 1))))"

definition round_half_even :: "rat \<Rightarrow> int" where
  "round_half_even t =
     (let f = \<lfloor>t\<rfloor>; d = t - of_int f in
      if d < 1 / 2 then f else if 1 / 2 < d then f + 1 else if even f then f else f + 1)"

definition ulp :: "nat \<Rightarrow> rat \<Rightarrow> rat" where
  "ulp p x = 2 powi (exponent \<bar>x\<bar> - (int p - 1))"

definition fl :: "nat \<Rightarrow> rat \<Rightarrow> rat" where
  "fl p x =
     (if x = 0 then 0
      else sgn x * (ulp p x * of_int (round_half_even (\<bar>x\<bar> / ulp p x))))"

definition float32 :: "rat \<Rightarrow> rat" where
  "float32 = fl 24"

definition float64 :: "rat \<Rightarrow> rat" where
  "float64 = fl 53"

section \<open>Loader: normalisation\<close>

text \<open>
  \<^verbatim>\<open>train_images.reshape((-1, 28, 28, 1)).astype('float32') / 255\<close>: the integers are
  converted to binary32, and each is divided by 255 in binary32.
\<close>

definition astype_float32 :: "int image list \<Rightarrow> rat image list" where
  "astype_float32 = map (map (map (map (\<lambda>v. float32 (of_int v)))))"

definition divide_by_255 :: "rat image list \<Rightarrow> rat image list" where
  "divide_by_255 = map (map (map (map (\<lambda>x. float32 (x / 255)))))"

text \<open>What the two steps make of one raw pixel value.\<close>

definition normalise :: "int \<Rightarrow> rat" where
  "normalise v = float32 (float32 (of_int v) / 255)"

definition load_images :: "int list list \<Rightarrow> error + rat image list" where
  "load_images a =
     (case reshape a of
        Inl e \<Rightarrow> Inl e
      | Inr t \<Rightarrow> Inr (divide_by_255 (astype_float32 t)))"

text \<open>
  The preparation cell of both notebooks, statement by statement:
  \<^verbatim>\<open>train_df.iloc[:, 1:].values\<close>, \<^verbatim>\<open>train_df.iloc[:, 0].values\<close>, \<^verbatim>\<open>test_df.values\<close>, and
  the two reshape-and-normalise lines.
\<close>

definition train_images :: "frame \<Rightarrow> error + rat image list" where
  "train_images train_df = load_images (iloc_from 1 train_df)"

definition train_labels :: "frame \<Rightarrow> error + int list" where
  "train_labels train_df = iloc_col 0 train_df"

definition test_images :: "frame \<Rightarrow> error + rat image list" where
  "test_images test_df = load_images (df_values test_df)"

definition prepare ::
  "frame \<Rightarrow> frame \<Rightarrow> error + (rat image list \<times> int list \<times> rat image list)" where
  "prepare train_df test_df =
     (case train_labels train_df of
        Inl e \<Rightarrow> Inl e
      | Inr labels \<Rightarrow>
     (case train_images train_df of
        Inl e \<Rightarrow> Inl e
      | Inr tr \<Rightarrow>
     (case test_images test_df of
        Inl e \<Rightarrow> Inl e
      | Inr te \<Rightarrow> Inr (tr, labels, te))))"



section \<open>Splitter\<close>

text \<open>
  \<^verbatim>\<open>train_test_split(X, y, test_size=0.2, random_state=42)\<close> of scikit-learn. The sizes
  come from \<^verbatim>\<open>_validate_shuffle_split\<close>: \<^verbatim>\<open>n_test = ceil(test_size * n_samples)\<close> in
  binary64, \<^verbatim>\<open>n_train = n_samples - n_test\<close> since no \<^verbatim>\<open>train_size\<close> is given, and a
  ValueError when the training set would be empty. The indices come from
  \<^verbatim>\<open>ShuffleSplit\<close>: one permutation of \<open>0..<n_samples\<close> drawn from the generator, its first
  \<open>n_test\<close> entries the test indices, the next \<open>n_train\<close> the training indices.

  The generator is a parameter: its state type \<open>'g\<close>, the state \<^verbatim>\<open>RandomState(seed)\<close> starts
  from, and \<^verbatim>\<open>permutation\<close>, which returns the permutation and the state it leaves.
  With \<^verbatim>\<open>random_state=None\<close> scikit-learn draws from numpy's process-wide generator and
  so advances it; with an integer it seeds a generator of its own.
\<close>

record 'g rng =
  seeded :: "nat \<Rightarrow> 'g"
  permutation :: "'g \<Rightarrow> nat \<Rightarrow> nat list \<times> 'g"

definition rng_ok :: "'g rng \<Rightarrow> bool" where
  "rng_ok R = (\<forall>g n. mset (fst (permutation R g n)) = mset [0..<n])"

definition test_size :: rat where
  "test_size = float64 (1 / 5)"

definition validate_shuffle_split :: "nat \<Rightarrow> error + nat \<times> nat" where
  "validate_shuffle_split n_samples =
     (let n_test = nat \<lceil>float64 (test_size * of_nat n_samples)\<rceil>;
          n_train = n_samples - n_test
      in if n_train = 0 then Inl ValueError else Inr (n_train, n_test))"

definition shuffle_split ::
  "'g rng \<Rightarrow> 'g \<Rightarrow> nat \<Rightarrow> nat \<Rightarrow> nat \<Rightarrow> (nat list \<times> nat list) \<times> 'g" where
  "shuffle_split R s n_samples n_train n_test =
     (let (perm, s') = permutation R s n_samples
      in ((take n_train (drop n_test perm), take n_test perm), s'))"

definition train_test_split ::
  "'g rng \<Rightarrow> 'g \<Rightarrow> 'a list \<Rightarrow> 'b list \<Rightarrow> nat option \<Rightarrow>
     error + (('a list \<times> 'a list \<times> 'b list \<times> 'b list) \<times> 'g)" where
  "train_test_split R g X y random_state =
     (if length X \<noteq> length y then Inl ValueError
      else case validate_shuffle_split (length X) of
        Inl e \<Rightarrow> Inl e
      | Inr (n_train, n_test) \<Rightarrow>
          (case random_state of
             None \<Rightarrow>
               (let ((train, test), g') = shuffle_split R g (length X) n_train n_test
                in Inr ((map ((!) X) train, map ((!) X) test,
                         map ((!) y) train, map ((!) y) test), g'))
           | Some seed \<Rightarrow>
               (let ((train, test), s') = shuffle_split R (seeded R seed) (length X) n_train n_test
                in Inr ((map ((!) X) train, map ((!) X) test,
                         map ((!) y) train, map ((!) y) test), g))))"

text \<open>The split cell of both notebooks.\<close>

definition split_cell ::
  "'g rng \<Rightarrow> 'g \<Rightarrow> 'a list \<Rightarrow> 'b list \<Rightarrow>
     error + (('a list \<times> 'a list \<times> 'b list \<times> 'b list) \<times> 'g)" where
  "split_cell R g images labels = train_test_split R g images labels (Some 42)"

text \<open>A small generator to run the definitions with: the state is a counter, and the
  permutation is the identity rotated by it.\<close>

definition toy_rng :: "nat rng" where
  "toy_rng = \<lparr>seeded = (\<lambda>s. s), permutation = (\<lambda>g n. (rotate g [0..<n], Suc g))\<rparr>"

section \<open>Predictor and submission writer\<close>

text \<open>
  The trained network is a parameter: \<open>forward w img\<close> is the output vector of the network
  with weights \<open>w\<close> on one image, and \<^verbatim>\<open>model.predict\<close> applies it to every image in order.
  On an input that holds no sample Keras raises ValueError, since no batch comes out of
  the prediction loop. How Keras cuts the input into batches is not modelled.
\<close>

definition predict :: "('x \<Rightarrow> 'p list) \<Rightarrow> 'x list \<Rightarrow> error + 'p list list" where
  "predict f imgs = (if imgs = [] then Inl ValueError else Inr (map f imgs))"

text \<open>
  \<^verbatim>\<open>np.argmax\<close> scans from the left and moves to a later index only on a strictly larger
  value; on an empty vector it raises ValueError. The values are taken from a linear
  order, which floats other than NaN are. \<^verbatim>\<open>np.argmax(predictions, axis=1)\<close> does this for
  every row.
\<close>

fun argmax_from :: "'a::linorder \<Rightarrow> nat \<Rightarrow> nat \<Rightarrow> 'a list \<Rightarrow> nat" where
  "argmax_from mv mi i [] = mi"
| "argmax_from mv mi i (x # xs) =
     (if mv < x then argmax_from x i (Suc i) xs else argmax_from mv mi (Suc i) xs)"

definition argmax :: "'a::linorder list \<Rightarrow> error + nat" where
  "argmax v = (case v of [] \<Rightarrow> Inl ValueError | x # xs \<Rightarrow> Inr (argmax_from x 0 1 xs))"

fun argmax_axis1 :: "'a::linorder list list \<Rightarrow> error + nat list" where
  "argmax_axis1 [] = Inr []"
| "argmax_axis1 (v # vs) =
     (case argmax v of
        Inl e \<Rightarrow> Inl e
      | Inr k \<Rightarrow> (case argmax_axis1 vs of Inl e \<Rightarrow> Inl e | Inr ks \<Rightarrow> Inr (k # ks)))"

text \<open>\<^verbatim>\<open>np.arange(a, b)\<close> on integers, and \<^verbatim>\<open>pd.DataFrame\<close> of a dict of columns: the columns
  in insertion order, one row per index, ValueError when the columns differ in length.\<close>

definition arange :: "int \<Rightarrow> int \<Rightarrow> int list" where
  "arange a b = [a..b - 1]"

definition DataFrame :: "(string \<times> int list) list \<Rightarrow> error + frame" where
  "DataFrame d =
     (case d of
        [] \<Rightarrow> Inr \<lparr>columns = [], df_values = []\<rparr>
      | (name, c0) # cs \<Rightarrow>
          if list_all (\<lambda>c. length (snd c) = length c0) cs
          then Inr \<lparr>columns = map fst d,
                    df_values = map (\<lambda>i. map (\<lambda>c. snd c ! i) d) [0..<length c0]\<rparr>
          else Inl ValueError)"

text \<open>\<^verbatim>\<open>df.to_csv('submission.csv', index=False)\<close>: the lines of the file, the header first.\<close>

fun digits :: "nat \<Rightarrow> string" where
  "digits n =
     (if n < 10 then [char_of (48 + n)]
      else digits (n div 10) @ [char_of (48 + n mod 10)])"

declare digits.simps [simp del]

definition str :: "int \<Rightarrow> string" where
  "str i = (if i < 0 then CHR ''-'' # digits (nat (- i)) else digits (nat i))"

fun join :: "string \<Rightarrow> string list \<Rightarrow> string" where
  "join sep [] = []"
| "join sep [x] = x"
| "join sep (x # y # ys) = x @ sep @ join sep (y # ys)"

definition to_csv :: "frame \<Rightarrow> string list" where
  "to_csv df = join '','' (columns df) # map (\<lambda>r. join '','' (map str r)) (df_values df)"

text \<open>The prediction cells of both notebooks: \<^verbatim>\<open>predictions\<close>, \<^verbatim>\<open>predicted_classes\<close>,
  \<^verbatim>\<open>submission_df\<close> and the file written.\<close>

definition predictions :: "(rat image \<Rightarrow> 'p list) \<Rightarrow> frame \<Rightarrow> error + 'p list list" where
  "predictions f test_df =
     (case test_images test_df of Inl e \<Rightarrow> Inl e | Inr imgs \<Rightarrow> predict f imgs)"

definition predicted_classes ::
  "(rat image \<Rightarrow> 'p::linorder list) \<Rightarrow> frame \<Rightarrow> error + nat list" where
  "predicted_classes f test_df =
     (case predictions f test_df of Inl e \<Rightarrow> Inl e | Inr ps \<Rightarrow> argmax_axis1 ps)"

definition submission_of :: "nat list \<Rightarrow> error + frame" where
  "submission_of classes =
     DataFrame [(''ImageId'', arange 1 (int (length classes) + 1)),
                (''Label'', map int classes)]"

definition submission_df ::
  "(rat image \<Rightarrow> 'p::linorder list) \<Rightarrow> frame \<Rightarrow> error + frame" where
  "submission_df f test_df =
     (case predicted_classes f test_df of Inl e \<Rightarrow> Inl e | Inr cs \<Rightarrow> submission_of cs)"

definition submission_csv ::
  "(rat image \<Rightarrow> 'p::linorder list) \<Rightarrow> frame \<Rightarrow> error + string list" where
  "submission_csv f test_df =
     (case submission_df f test_df of Inl e \<Rightarrow> Inl e | Inr df \<Rightarrow> Inr (to_csv df))"

text \<open>The same from the images already loaded, as the notebook has them at this point.\<close>

definition submission_from ::
  "(rat image \<Rightarrow> 'p::linorder list) \<Rightarrow> rat image list \<Rightarrow> error + frame" where
  "submission_from f imgs =
     (case predict f imgs of
        Inl e \<Rightarrow> Inl e
      | Inr ps \<Rightarrow> (case argmax_axis1 ps of Inl e \<Rightarrow> Inl e | Inr cs \<Rightarrow> submission_of cs))"

section \<open>Augmentor and training loop\<close>

text \<open>
  Keras is a parameter. \<open>K\<close> stands for \<^verbatim>\<open>Sequential([...])\<close> followed by \<^verbatim>\<open>model.compile\<close>: from
  the arguments of \<^verbatim>\<open>compile\<close> it gives the operations of the compiled model on weights
  \<open>'w\<close>: one optimiser step on a mini-batch (returning the new weights and the batch's
  loss and accuracy, \<open>'m\<close>), the evaluation of loss and accuracy on a data set, the mean
  of the batch metrics that Keras prints for the epoch, and the forward pass on one
  image. \<open>A\<close> stands for \<^verbatim>\<open>ImageDataGenerator(...)\<close>: from its arguments it gives the random
  transform of one image, which draws from the process-wide generator.
\<close>

record compile_args =
  optimizer :: string
  loss :: string
  metrics :: "string list"

record ('w, 'y, 'm, 'p) network =
  train_step :: "'w \<Rightarrow> (rat image \<times> 'y) list \<Rightarrow> 'w \<times> 'm"
  test_step :: "'w \<Rightarrow> (rat image \<times> 'y) list \<Rightarrow> 'm"
  mean_of :: "'m list \<Rightarrow> 'm"
  forward :: "'w \<Rightarrow> rat image \<Rightarrow> 'p list"

record datagen_args =
  rotation_range :: rat
  width_shift_range :: rat
  height_shift_range :: rat
  zoom_range :: rat
  shear_range :: rat
  horizontal_flip :: bool
  fill_mode :: string


definition compile_2 :: compile_args where
  "compile_2 =
     \<lparr>optimizer = ''adam'', loss = ''sparse_categorical_crossentropy'',
      metrics = [''accuracy'']\<rparr>"

definition datagen :: datagen_args where
  "datagen =
     \<lparr>rotation_range = 10, width_shift_range = float64 (1 / 10),
      height_shift_range = float64 (1 / 10), zoom_range = float64 (1 / 10),
      shear_range = float64 (1 / 10), horizontal_flip = False, fill_mode = ''nearest''\<rparr>"

text \<open>
  Mini-batches of arrays (notebook 1): \<^verbatim>\<open>model.fit\<close> shuffles the samples before every epoch
  and cuts them into consecutive blocks of \<open>b\<close> samples, the last block shorter when \<open>b\<close>
  does not divide the number of samples. The state \<open>'g\<close> stands for the random state of
  the whole process: numpy's, Python's and TensorFlow's generators are not told apart.
\<close>

definition batches :: "nat \<Rightarrow> 'a list \<Rightarrow> 'a list list" where
  "batches b xs = map (\<lambda>k. take b (drop (k * b) xs)) [0..<(length xs + b - 1) div b]"


text \<open>
  \<^verbatim>\<open>datagen.flow(x, y, batch_size=b)\<close> (notebook 2) is a Keras \<^verbatim>\<open>Sequence\<close> of \<open>\<lceil>n / b\<rceil>\<close> items.
  It keeps an index array, a permutation of the sample indices drawn when the first
  item is asked for and again at the end of every epoch. Item \<open>idx\<close> takes the indices at
  positions \<open>idx * b ..< (idx + 1) * b\<close> of the index array and transforms the image of
  each of them, in order, with a transform drawn anew for every image; the labels are
  not changed. \<^verbatim>\<open>datagen.fit\<close> computes statistics only for the feature-wise options, none
  of which is set, so it does nothing here.

  \<^verbatim>\<open>model.fit\<close> on a \<^verbatim>\<open>Sequence\<close>, with its defaults \<^verbatim>\<open>shuffle=True\<close> and one worker: it asks
  for item 0 once before the first epoch, to learn the shapes, and drops it; then, in
  every epoch, it shuffles the item numbers \<open>0 ..< \<lceil>n / b\<rceil>\<close>, asks for the items in that
  order, and at the end of the epoch lets the \<^verbatim>\<open>Sequence\<close> draw its next index array. So the
  short item is fed at any position of the epoch, not always last.
\<close>

fun transform_samples :: "('g \<Rightarrow> 'x \<Rightarrow> 'x \<times> 'g) \<Rightarrow> 'g \<Rightarrow> 'x list \<Rightarrow> 'x list \<times> 'g" where
  "transform_samples t g [] = ([], g)"
| "transform_samples t g (x # xs) =
     (let (x', g1) = t g x; (xs', g2) = transform_samples t g1 xs in (x' # xs', g2))"

definition flow_item ::
  "('g \<Rightarrow> 'x \<Rightarrow> 'x \<times> 'g) \<Rightarrow> 'x list \<Rightarrow> 'y list \<Rightarrow> nat \<Rightarrow> nat list \<Rightarrow> nat \<Rightarrow> 'g \<Rightarrow>
     ('x \<times> 'y) list \<times> 'g" where
  "flow_item t X y b index_array idx g =
     (let js = take b (drop (idx * b) index_array);
          (xs, g1) = transform_samples t g (map ((!) X) js)
      in (zip xs (map ((!) y) js), g1))"

fun get_items :: "(nat \<Rightarrow> 'g \<Rightarrow> 'b \<times> 'g) \<Rightarrow> nat list \<Rightarrow> 'g \<Rightarrow> 'b list \<times> 'g" where
  "get_items item [] g = ([], g)"
| "get_items item (i # is) g =
     (let (b, g1) = item i g; (bs, g2) = get_items item is g1 in (b # bs, g2))"

definition flow_first_item ::
  "'g rng \<Rightarrow> ('g \<Rightarrow> 'x \<Rightarrow> 'x \<times> 'g) \<Rightarrow> 'x list \<Rightarrow> 'y list \<Rightarrow> nat \<Rightarrow> 'g \<Rightarrow> nat list \<times> 'g" where
  "flow_first_item R t X y b g =
     (let (index_array, g1) = permutation R g (length X);
          (dropped, g2) = flow_item t X y b index_array 0 g1
      in (index_array, g2))"

definition flow_epoch ::
  "'g rng \<Rightarrow> ('g \<Rightarrow> 'x \<Rightarrow> 'x \<times> 'g) \<Rightarrow> 'x list \<Rightarrow> 'y list \<Rightarrow> nat \<Rightarrow> nat list \<times> 'g \<Rightarrow>
     ('x \<times> 'y) list list \<times> (nat list \<times> 'g)" where
  "flow_epoch R t X y b s =
     (let (index_array, g) = s;
          (order, g1) = permutation R g ((length X + b - 1) div b);
          (bs, g2) = get_items (flow_item t X y b index_array) order g1;
          (index_array', g3) = permutation R g2 (length X)
      in (bs, (index_array', g3)))"

text \<open>
  \<^verbatim>\<open>model.fit(..., epochs=e, validation_data=(x_val, y_val))\<close>: every epoch takes its
  mini-batches from the source, makes one optimiser step per mini-batch, then evaluates
  the weights on the validation data, and appends one entry to the history: the mean of
  the batch metrics and the validation metrics. It leaves the model with the weights of
  the last step.
\<close>

record 'm epoch_log =
  train_report :: 'm
  val_report :: 'm

fun run_batches :: "('w \<Rightarrow> 'b \<Rightarrow> 'w \<times> 'm) \<Rightarrow> 'w \<Rightarrow> 'b list \<Rightarrow> 'w \<times> 'm list" where
  "run_batches step w [] = (w, [])"
| "run_batches step w (b # bs) =
     (let (w1, m) = step w b; (w2, ms) = run_batches step w1 bs in (w2, m # ms))"

fun fit ::
  "('w, 'y, 'm, 'p) network \<Rightarrow> ('s \<Rightarrow> (rat image \<times> 'y) list list \<times> 's) \<Rightarrow>
     (rat image \<times> 'y) list \<Rightarrow> nat \<Rightarrow> 'w \<Rightarrow> 's \<Rightarrow> 'm epoch_log list \<times> 'w \<times> 's" where
  "fit N src val 0 w s = ([], w, s)"
| "fit N src val (Suc e) w s =
     (let (bs, s1) = src s;
          (w1, ms) = run_batches (train_step N) w bs;
          entry = \<lparr>train_report = mean_of N ms, val_report = test_step N w1 val\<rparr>;
          (entries, w2, s2) = fit N src val e w1 s1
      in (entry # entries, w2, s2))"

text \<open>
  What the claims say of a training run, written from their words and not from \<^verbatim>\<open>fit\<close>.

  \<open>mini_batches_of b n bs\<close>: the batches \<open>bs\<close> are \<open>\<lceil>n / b\<rceil>\<close> in number and hold \<open>n\<close> samples in
  all, each of them between 1 and \<open>b\<close> samples and all but the last exactly \<open>b\<close>.
  \<open>mini_batches_any_order b n bs\<close>: the same, except that the one batch that may be shorter
  than \<open>b\<close> stands anywhere.

  \<open>weights_after step w bs\<close> are the weights after one optimiser step on each batch of \<open>bs\<close>
  in turn, from \<open>w\<close>; \<open>batch_metrics step w bs\<close> are the metrics these steps return.
  \<open>training_trace N Bs val ws h\<close>: \<open>Bs\<close> holds the mini-batches of the epochs, \<open>ws\<close> the weights
  before the first epoch and after each epoch, and \<open>h\<close> one entry per epoch; the weights
  after epoch \<open>e\<close> come from those before it by one optimiser step of \<open>N\<close> per mini-batch of
  \<open>Bs ! e\<close>, the entry reports the mean of the metrics of these steps and the evaluation by
  \<open>N\<close> of the weights after the epoch on the data \<open>val\<close>.
\<close>

definition mini_batches_of :: "nat \<Rightarrow> nat \<Rightarrow> 'a list list \<Rightarrow> bool" where
  "mini_batches_of b n bs =
     (length bs = (n + b - 1) div b \<and> length (concat bs) = n \<and>
      list_all (\<lambda>c. length c = b) (butlast bs) \<and>
      list_all (\<lambda>c. 0 < length c \<and> length c \<le> b) bs)"

definition mini_batches_any_order :: "nat \<Rightarrow> nat \<Rightarrow> 'a list list \<Rightarrow> bool" where
  "mini_batches_any_order b n bs =
     (length bs = (n + b - 1) div b \<and> length (concat bs) = n \<and>
      length (filter (\<lambda>c. length c \<noteq> b) bs) \<le> 1 \<and>
      list_all (\<lambda>c. 0 < length c \<and> length c \<le> b) bs)"

definition weights_after :: "('w \<Rightarrow> 'b \<Rightarrow> 'w \<times> 'm) \<Rightarrow> 'w \<Rightarrow> 'b list \<Rightarrow> 'w" where
  "weights_after step w bs = foldl (\<lambda>v b. fst (step v b)) w bs"

definition batch_metrics :: "('w \<Rightarrow> 'b \<Rightarrow> 'w \<times> 'm) \<Rightarrow> 'w \<Rightarrow> 'b list \<Rightarrow> 'm list" where
  "batch_metrics step w bs =
     map (\<lambda>k. snd (step (weights_after step w (take k bs)) (bs ! k))) [0..<length bs]"

definition training_trace ::
  "('w, 'y, 'm, 'p) network \<Rightarrow> (rat image \<times> 'y) list list list \<Rightarrow> (rat image \<times> 'y) list \<Rightarrow>
     'w list \<Rightarrow> 'm epoch_log list \<Rightarrow> bool" where
  "training_trace N Bs val ws h =
     (length ws = Suc (length Bs) \<and> length h = length Bs \<and>
      list_all (\<lambda>e.
         ws ! Suc e = weights_after (train_step N) (ws ! e) (Bs ! e) \<and>
         train_report (h ! e) =
           mean_of N (batch_metrics (train_step N) (ws ! e) (Bs ! e)) \<and>
         val_report (h ! e) = test_step N (ws ! Suc e) val) [0..<length Bs])"

section \<open>The two notebooks\<close>

text \<open>What a run leaves: the history of \<^verbatim>\<open>fit\<close>, the weights of the trained model, and the
  submission table.\<close>

record ('w, 'm) run =
  history :: "'m epoch_log list"
  trained_weights :: 'w
  submission :: frame


definition notebook_2 ::
  "'g rng \<Rightarrow> (compile_args \<Rightarrow> ('w, int, 'm, 'p::linorder) network) \<Rightarrow>
     (datagen_args \<Rightarrow> 'g \<Rightarrow> rat image \<Rightarrow> rat image \<times> 'g) \<Rightarrow> 'w \<Rightarrow> 'g \<Rightarrow>
     frame \<Rightarrow> frame \<Rightarrow> error + ('w, 'm) run" where
  "notebook_2 R K A w0 g train_df test_df =
     (case prepare train_df test_df of
        Inl e \<Rightarrow> Inl e
      | Inr (images, labels, test) \<Rightarrow>
     (case split_cell R g images labels of
        Inl e \<Rightarrow> Inl e
      | Inr ((X_train, X_val, y_train, y_val), g1) \<Rightarrow>
          (let model = K compile_2;
               (h, w, s) = fit model (flow_epoch R (A datagen) X_train y_train 64)
                             (zip X_val y_val) 10 w0
                             (flow_first_item R (A datagen) X_train y_train 64 g1)
           in case submission_from (forward model w) test of
                Inl e \<Rightarrow> Inl e
              | Inr df \<Rightarrow> Inr \<lparr>history = h, trained_weights = w, submission = df\<rparr>)))"


definition well_formed_train :: "frame \<Rightarrow> bool" where
  "well_formed_train df =
     (length (columns df) = 785 \<and>
      list_all (\<lambda>r. length r = 785 \<and> 0 \<le> r ! 0 \<and> r ! 0 \<le> 9) (df_values df) \<and>
      2 \<le> length (df_values df) \<and> length (df_values df) < 2 ^ 50)"

definition well_formed_test :: "frame \<Rightarrow> bool" where
  "well_formed_test df =
     (df_values df \<noteq> [] \<and> list_all (\<lambda>r. length r = 784) (df_values df))"

section \<open>Sample data\<close>

text \<open>A test table of two rows and a network whose output has its maximum twice, at
  classes 3 and 6, used to run the definitions on.\<close>

definition sample_test_df :: frame where
  "sample_test_df =
     \<lparr>columns = map (\<lambda>k. ''pixel'' @ str (int k)) [0..<784],
      df_values = [replicate 784 0, map (\<lambda>k. int (k mod 256)) [0..<784]]\<rparr>"

text \<open>A test table with the 784 pixel columns and no row.\<close>

definition empty_test_df :: frame where
  "empty_test_df = \<lparr>columns = map (\<lambda>k. ''pixel'' @ str (int k)) [0..<784], df_values = []\<rparr>"

text \<open>A table of two rows of 392 values each: not the width of an image, but 784 values
  in all.\<close>

definition two_half_rows :: "int list list" where
  "two_half_rows = [replicate 392 0, replicate 392 255]"

definition sample_images :: "rat image list" where
  "sample_images = map (\<lambda>r. map (map (map normalise)) (to_image r)) (df_values sample_test_df)"

definition sample_net :: "rat image \<Rightarrow> nat list" where
  "sample_net img = [0, 0, 0, 1, 0, 0, 1, 0, 0, 0]"

text \<open>A training table of six rows, and stand-ins for Keras: a model whose weights count
  the optimiser steps and whose metrics count samples, a model whose metrics are the very
  data it is given, and a random transform that inverts the image.\<close>

definition sample_train_df :: frame where
  "sample_train_df =
     \<lparr>columns = ''label'' # map (\<lambda>k. ''pixel'' @ str (int k)) [0..<784],
      df_values = map (\<lambda>l. l # replicate 784 (25 * l)) [0, 1, 2, 3, 4, 5]\<rparr>"


definition echo_keras :: "compile_args \<Rightarrow> (nat, 'y, (rat image \<times> 'y) list, nat) network" where
  "echo_keras args =
     \<lparr>train_step = (\<lambda>w batch. (Suc w, batch)),
      test_step = (\<lambda>w data. data),
      mean_of = concat,
      forward = (\<lambda>w. sample_net)\<rparr>"

definition toy_augment :: "datagen_args \<Rightarrow> nat \<Rightarrow> rat image \<Rightarrow> rat image \<times> nat" where
  "toy_augment args g x = (map (map (map (\<lambda>v. 1 - v))) x, Suc g)"

section \<open>Basic facts about reshape\<close>

lemma length_chunks: "length (chunks n xs) = length xs div n"
  by (simp add: chunks_def)

lemma nth_chunks:
  "k < length xs div n \<Longrightarrow> chunks n xs ! k = take n (drop (k * n) xs)"
  by (simp add: chunks_def)

lemma length_nth_chunks:
  assumes "k < length xs div n"
  shows "length (chunks n xs ! k) = n"
proof -
  have "Suc k * n \<le> (length xs div n) * n"
    using assms by (intro mult_le_mono1) simp
  also have "\<dots> \<le> length xs"
    by simp
  finally have "n \<le> length xs - k * n"
    by simp
  then show ?thesis
    using assms by (simp add: nth_chunks)
qed

lemma chunks_member_length: "c \<in> set (chunks n xs) \<Longrightarrow> length c = n"
  by (metis in_set_conv_nth length_chunks length_nth_chunks)

lemma nth_nth_chunks:
  assumes "k < length xs div n" "j < n"
  shows "chunks n xs ! k ! j = xs ! (k * n + j)"
proof -
  have "Suc k * n \<le> (length xs div n) * n"
    using assms(1) by (intro mult_le_mono1) simp
  also have "\<dots> \<le> length xs"
    by simp
  finally have "k * n + j < length xs"
    using assms(2) by simp
  then show ?thesis
    using assms by (simp add: nth_chunks)
qed

lemma concat_chunks:
  "length xs mod n = 0 \<Longrightarrow> concat (chunks n xs) = xs"
proof (induction "length xs div n" arbitrary: xs)
  case 0
  then have "length xs = 0 \<or> n = 0"
    by (metis div_mult_mod_eq add.right_neutral mult_zero_left mult_zero_right)
  then show ?case
    using 0 by (auto simp: chunks_def)
next
  case (Suc m)
  then have n: "0 < n"
    by (metis div_by_0 gr0I nat.distinct(1))
  have len: "n \<le> length xs"
    using Suc.hyps(2) n by (metis div_less not_less nat.distinct(1))
  have d: "length (drop n xs) div n = m"
    using Suc.hyps(2) len n by (simp add: le_div_geq)
  have md: "length (drop n xs) mod n = 0"
    using Suc.prems len by (simp add: le_mod_geq)
  have "chunks n xs = take n xs # chunks n (drop n xs)"
  proof -
    have "[0..<length xs div n] = 0 # map Suc [0..<m]"
      using Suc.hyps(2) by (metis map_Suc_upt upt_conv_Cons zero_less_Suc)
    moreover have "(length xs - n) div n = m"
      using d by simp
    ultimately show ?thesis
      by (simp add: chunks_def comp_def add.commute)
  qed
  then show ?case
    using Suc.hyps(1)[OF d[symmetric] md] by simp
qed

lemma has_shape_to_image:
  assumes "length px = 784"
  shows "has_shape 28 28 1 (to_image px)"
proof -
  have "length (chunks 28 px) = 28"
    using assms by (simp add: length_chunks)
  moreover have "\<forall>r \<in> set (chunks 28 px). length r = 28"
    by (simp add: chunks_member_length)
  ultimately show ?thesis
    by (simp add: has_shape_def to_image_def list_all_iff)
qed

lemma pixel_to_image:
  assumes "length px = 784" "r < 28" "c < 28"
  shows "pixel (to_image px) r c = px ! (r * 28 + c)"
proof -
  have k: "r < length px div 28"
    using assms by simp
  have "length (chunks 28 px ! r) = 28"
    using k by (rule length_nth_chunks)
  then show ?thesis
    using assms k by (simp add: pixel_def to_image_def length_chunks nth_nth_chunks)
qed

section \<open>Predictor and submission writer: properties\<close>

lemma argmax_from_spec:
  assumes "length pre = i" "mi < i" "pre ! mi = mv"
    "\<forall>j<i. pre ! j \<le> mv" "\<forall>j<mi. pre ! j < mv"
  shows "argmax_from mv mi i xs < length (pre @ xs) \<and>
         (\<forall>j<length (pre @ xs). (pre @ xs) ! j \<le> (pre @ xs) ! argmax_from mv mi i xs) \<and>
         (\<forall>j<argmax_from mv mi i xs. (pre @ xs) ! j < (pre @ xs) ! argmax_from mv mi i xs)"
  using assms
proof (induction xs arbitrary: pre mv mi i)
  case Nil
  then show ?case by simp
next
  case (Cons x xs)
  show ?case
  proof (cases "mv < x")
    case True
    have "argmax_from x i (Suc i) xs < length ((pre @ [x]) @ xs) \<and>
         (\<forall>j<length ((pre @ [x]) @ xs). ((pre @ [x]) @ xs) ! j \<le> ((pre @ [x]) @ xs) ! argmax_from x i (Suc i) xs) \<and>
         (\<forall>j<argmax_from x i (Suc i) xs. ((pre @ [x]) @ xs) ! j < ((pre @ [x]) @ xs) ! argmax_from x i (Suc i) xs)"
    proof (rule Cons.IH)
      show "length (pre @ [x]) = Suc i" using Cons.prems(1) by simp
      show "i < Suc i" by simp
      show "(pre @ [x]) ! i = x" using Cons.prems(1) by (simp add: nth_append)
      show "\<forall>j<Suc i. (pre @ [x]) ! j \<le> x"
        using Cons.prems(1,4) True by (auto simp: nth_append less_Suc_eq intro: less_imp_le order.trans)
      show "\<forall>j<i. (pre @ [x]) ! j < x"
        using Cons.prems(1,4) True by (auto simp: nth_append intro: le_less_trans)
    qed
    then show ?thesis
      using True by simp
  next
    case False
    have "argmax_from mv mi (Suc i) xs < length ((pre @ [x]) @ xs) \<and>
         (\<forall>j<length ((pre @ [x]) @ xs). ((pre @ [x]) @ xs) ! j \<le> ((pre @ [x]) @ xs) ! argmax_from mv mi (Suc i) xs) \<and>
         (\<forall>j<argmax_from mv mi (Suc i) xs. ((pre @ [x]) @ xs) ! j < ((pre @ [x]) @ xs) ! argmax_from mv mi (Suc i) xs)"
    proof (rule Cons.IH)
      show "length (pre @ [x]) = Suc i" using Cons.prems(1) by simp
      show "mi < Suc i" using Cons.prems(2) by simp
      show "(pre @ [x]) ! mi = mv" using Cons.prems(1,2,3) by (simp add: nth_append)
      show "\<forall>j<Suc i. (pre @ [x]) ! j \<le> mv"
        using Cons.prems(1,4) False by (auto simp: nth_append less_Suc_eq)
      show "\<forall>j<mi. (pre @ [x]) ! j < mv"
        using Cons.prems(1,2,5) by (auto simp: nth_append)
    qed
    then show ?thesis
      using False by simp
  qed
qed

lemma argmax_spec:
  assumes "v \<noteq> []"
  shows "\<exists>k. argmax v = Inr k \<and> k < length v \<and> (\<forall>j<length v. v ! j \<le> v ! k) \<and>
             (\<forall>j<k. v ! j < v ! k)"
proof -
  obtain x xs where v: "v = x # xs"
    using assms by (cases v) auto
  have "argmax_from x 0 1 xs < length ([x] @ xs) \<and>
         (\<forall>j<length ([x] @ xs). ([x] @ xs) ! j \<le> ([x] @ xs) ! argmax_from x 0 1 xs) \<and>
         (\<forall>j<argmax_from x 0 1 xs. ([x] @ xs) ! j < ([x] @ xs) ! argmax_from x 0 1 xs)"
    by (rule argmax_from_spec) simp_all
  then show ?thesis
    by (simp add: v argmax_def)
qed

lemma argmax_axis1_spec:
  assumes "list_all (\<lambda>v. v \<noteq> []) vs"
  shows "\<exists>ks. argmax_axis1 vs = Inr ks \<and> length ks = length vs \<and>
           (\<forall>i<length vs. argmax (vs ! i) = Inr (ks ! i))"
  using assms
proof (induction vs)
  case Nil
  then show ?case by simp
next
  case (Cons v vs)
  then obtain ks where ks: "argmax_axis1 vs = Inr ks" "length ks = length vs"
    "\<forall>i<length vs. argmax (vs ! i) = Inr (ks ! i)"
    by auto
  obtain k where k: "argmax v = Inr k"
    using argmax_spec[of v] Cons.prems by auto
  show ?case
    using ks k by (auto simp: nth_Cons split: nat.splits)
qed

lemma chunks_append:
  assumes "length r = n" "0 < n"
  shows "chunks n (r @ ys) = r # chunks n ys"
proof -
  have "(length r + length ys) div n = Suc (length ys div n)"
    using assms by simp
  then have "[0..<length (r @ ys) div n] = 0 # map Suc [0..<length ys div n]"
    by (simp add: map_Suc_upt upt_conv_Cons)
  then show ?thesis
    using assms by (simp add: chunks_def comp_def)
qed

lemma chunks_concat:
  assumes "list_all (\<lambda>r. length r = n) a" "0 < n"
  shows "chunks n (concat a) = a"
  using assms
proof (induction a)
  case Nil
  then show ?case by (simp add: chunks_def)
next
  case (Cons r a)
  then show ?case by (simp add: chunks_append)
qed

lemma length_concat_rows:
  "list_all (\<lambda>r. length r = n) a \<Longrightarrow> length (concat a) = length a * n"
  by (induction a) simp_all

lemma reshape_rows:
  assumes "list_all (\<lambda>r. length r = 784) a"
  shows "reshape a = Inr (map to_image a)"
  using chunks_concat[OF assms] length_concat_rows[OF assms]
  by (simp add: reshape_def)

lemma load_images_rows:
  assumes "list_all (\<lambda>r. length r = 784) a"
  shows "load_images a = Inr (map (\<lambda>r. map (map (map normalise)) (to_image r)) a)"
  by (simp add: load_images_def reshape_rows[OF assms] astype_float32_def divide_by_255_def
      normalise_def comp_def)

lemma predicted_classes_empty:
  assumes "test_images test_df = Inr []"
  shows "predicted_classes f test_df = Inl ValueError"
  using assms by (simp add: predicted_classes_def predictions_def predict_def)

lemma predicted_classes_spec:
  assumes "test_images test_df = Inr imgs" "\<forall>img. length (f img) = 10" "imgs \<noteq> []"
  shows "\<exists>labels. predicted_classes f test_df = Inr labels \<and> length labels = length imgs \<and>
           (\<forall>i<length imgs. argmax (f (imgs ! i)) = Inr (labels ! i))"
proof -
  have "f img \<noteq> []" for img
    using assms(2) by (metis length_0_conv zero_neq_numeral)
  then have "list_all (\<lambda>v. v \<noteq> []) (map f imgs)"
    by (simp add: list_all_iff)
  then obtain ks where "argmax_axis1 (map f imgs) = Inr ks" "length ks = length (map f imgs)"
      "\<forall>i<length (map f imgs). argmax (map f imgs ! i) = Inr (ks ! i)"
    using argmax_axis1_spec by blast
  then show ?thesis
    using assms(1,3) by (simp add: predicted_classes_def predictions_def predict_def)
qed

text \<open>
  Claim C4. For every test image the predictor takes the network's 10-element output
  vector and returns as label the index of its maximum; among equal maxima it returns
  the first, that is the lowest class index. Here \<open>imgs\<close> are the images the loader made of
  the test table and \<open>f\<close> is the trained network, whose last layer has 10 units. When the
  test table has no row there is no test image, and \<^verbatim>\<open>model.predict\<close> raises ValueError.
\<close>

theorem predicted_label_is_first_maximum:
  assumes "test_images test_df = Inr imgs" "\<forall>img. length (f img) = 10"
  shows "(imgs = [] \<longrightarrow> predicted_classes f test_df = Inl ValueError) \<and>
         (imgs \<noteq> [] \<longrightarrow>
           (\<exists>labels. predicted_classes f test_df = Inr labels \<and> length labels = length imgs \<and>
              (\<forall>i<length imgs.
                 length (f (imgs ! i)) = 10 \<and> labels ! i < 10 \<and>
                 (\<forall>j<10. f (imgs ! i) ! j \<le> f (imgs ! i) ! (labels ! i)) \<and>
                 (\<forall>j<labels ! i. f (imgs ! i) ! j < f (imgs ! i) ! (labels ! i)))))"
proof (cases "imgs = []")
  case True
  then show ?thesis
    using assms(1) by (simp add: predicted_classes_empty)
next
  case False
  obtain labels where l: "predicted_classes f test_df = Inr labels" "length labels = length imgs"
      "\<forall>i<length imgs. argmax (f (imgs ! i)) = Inr (labels ! i)"
    using predicted_classes_spec[OF assms False] by blast
  have "length (f (imgs ! i)) = 10 \<and> labels ! i < 10 \<and>
              (\<forall>j<10. f (imgs ! i) ! j \<le> f (imgs ! i) ! (labels ! i)) \<and>
              (\<forall>j<labels ! i. f (imgs ! i) ! j < f (imgs ! i) ! (labels ! i))"
    if "i < length imgs" for i
  proof -
    have ne: "f (imgs ! i) \<noteq> []"
      using assms(2) by (metis length_0_conv zero_neq_numeral)
    have "argmax (f (imgs ! i)) = Inr (labels ! i)"
      using l(3) that by simp
    then show ?thesis
      using argmax_spec[OF ne] assms(2) by auto
  qed
  then show ?thesis
    using l(1,2) False by blast
qed

lemma nth_arange: "k < nat (b - a) \<Longrightarrow> arange a b ! k = a + int k"
  by (simp add: arange_def)

lemma length_arange: "length (arange a b) = nat (b - a)"
  by (simp add: arange_def)

lemma submission_of_eq:
  "submission_of cs = Inr \<lparr>columns = [''ImageId'', ''Label''],
      df_values = map (\<lambda>i. [int i + 1, int (cs ! i)]) [0..<length cs]\<rparr>"
  by (simp add: submission_of_def DataFrame_def length_arange nth_arange)

lemma test_images_rows:
  assumes "list_all (\<lambda>r. length r = 784) (df_values test_df)"
  shows "\<exists>imgs. test_images test_df = Inr imgs \<and> length imgs = length (df_values test_df)"
  by (simp add: test_images_def load_images_rows[OF assms])

lemma argmax_Inr_less: "argmax v = Inr k \<Longrightarrow> k < length v"
  using argmax_spec[of v] by (cases v) (auto simp: argmax_def)

text \<open>
  Claim C5, amended. For a test table of \<open>N \<ge> 1\<close> rows of 784 pixels the submission has the
  columns \<^verbatim>\<open>ImageId\<close> and \<^verbatim>\<open>Label\<close> and exactly \<open>N\<close> rows; the \<^verbatim>\<open>ImageId\<close> column is
  \<open>1, 2, \<dots>, N\<close> in this order, row \<open>i\<close> carries the label predicted for the \<open>i\<close>-th test
  row, every label is between 0 and 9, and the file written is the header line followed
  by these rows. For \<open>N = 0\<close> \<^verbatim>\<open>model.predict\<close> raises ValueError: no table is built and no
  file is written.
\<close>

theorem submission_rows_follow_input:
  assumes "list_all (\<lambda>r. length r = 784) (df_values test_df)" "\<forall>img. length (f img) = 10"
  shows "(df_values test_df = [] \<longrightarrow>
            submission_df f test_df = Inl ValueError \<and>
            submission_csv f test_df = Inl ValueError) \<and>
         (df_values test_df \<noteq> [] \<longrightarrow>
           (\<exists>labels df. predicted_classes f test_df = Inr labels \<and>
              submission_df f test_df = Inr df \<and>
              columns df = [''ImageId'', ''Label''] \<and>
              length (df_values df) = length (df_values test_df) \<and>
              map (\<lambda>r. r ! 0) (df_values df) = map int [1..<Suc (length (df_values test_df))] \<and>
              (\<forall>i<length (df_values test_df).
                 df_values df ! i = [int i + 1, int (labels ! i)] \<and> labels ! i \<le> 9) \<and>
              submission_csv f test_df =
                Inr (''ImageId,Label'' #
                     map (\<lambda>i. str (int i + 1) @ '','' @ str (int (labels ! i)))
                       [0..<length (df_values test_df)])))"
proof (cases "df_values test_df = []")
  case True
  then have "test_images test_df = Inr []"
    using test_images_rows[OF assms(1)] by auto
  then have "predicted_classes f test_df = Inl ValueError"
    by (rule predicted_classes_empty)
  then show ?thesis
    using True by (simp add: submission_df_def submission_csv_def)
next
  case False
  define N where "N = length (df_values test_df)"
  obtain imgs where imgs: "test_images test_df = Inr imgs" "length imgs = N"
    using test_images_rows[OF assms(1)] N_def by blast
  have ne: "imgs \<noteq> []"
    using False imgs(2) N_def by auto
  obtain labels where l: "predicted_classes f test_df = Inr labels" "length labels = N"
      "\<forall>i<N. argmax (f (imgs ! i)) = Inr (labels ! i)"
    using predicted_classes_spec[OF imgs(1) assms(2) ne] imgs(2) by auto
  define df where "df = \<lparr>columns = [''ImageId'', ''Label''],
      df_values = map (\<lambda>i. [int i + 1, int (labels ! i)]) [0..<N]\<rparr>"
  have sub: "submission_df f test_df = Inr df"
    by (simp add: submission_df_def l(1,2) submission_of_eq df_def)
  have "map int [1..<Suc N] = map int (map Suc [0..<N])"
    by (simp only: map_Suc_upt One_nat_def)
  also have "\<dots> = map (\<lambda>i. int i + 1) [0..<N]"
    by (simp add: add.commute)
  finally have ids: "map (\<lambda>r. r ! 0) (df_values df) = map int [1..<Suc N]"
    by (simp add: df_def comp_def)
  have small: "labels ! i \<le> 9" if "i < N" for i
  proof -
    have "labels ! i < length (f (imgs ! i))"
      using l(3) that by (intro argmax_Inr_less) simp
    then show ?thesis
      using assms(2) by simp
  qed
  have csv: "submission_csv f test_df =
      Inr (''ImageId,Label'' # map (\<lambda>i. str (int i + 1) @ '','' @ str (int (labels ! i))) [0..<N])"
    by (simp add: submission_csv_def sub to_csv_def df_def comp_def)
  have "\<exists>labels df. predicted_classes f test_df = Inr labels \<and>
              submission_df f test_df = Inr df \<and>
              columns df = [''ImageId'', ''Label''] \<and>
              length (df_values df) = N \<and>
              map (\<lambda>r. r ! 0) (df_values df) = map int [1..<Suc N] \<and>
              (\<forall>i<N. df_values df ! i = [int i + 1, int (labels ! i)] \<and> labels ! i \<le> 9) \<and>
              submission_csv f test_df =
                Inr (''ImageId,Label'' #
                     map (\<lambda>i. str (int i + 1) @ '','' @ str (int (labels ! i))) [0..<N])"
    using l(1) sub ids small csv by (intro exI[of _ labels] exI[of _ df]) (simp add: df_def)
  then show ?thesis
    using False unfolding N_def by blast
qed

lemma sample_rows: "list_all (\<lambda>r. length r = 784) (df_values sample_test_df)"
  by (simp add: sample_test_df_def)

lemma sample_rows_nonempty: "df_values sample_test_df \<noteq> []"
  by (simp add: sample_test_df_def)

lemma sample_test_images: "test_images sample_test_df = Inr sample_images"
  by (simp add: test_images_def load_images_rows[OF sample_rows] sample_images_def)

lemma sample_images_nonempty: "sample_images \<noteq> []"
  by (simp add: sample_images_def sample_test_df_def)

lemma sample_net_length: "\<forall>img. length (sample_net img) = 10"
  by (simp add: sample_net_def)

lemma sample_classes: "predicted_classes sample_net sample_test_df = Inr [3, 3]"
proof -
  have "length sample_images = 2"
    by (simp add: sample_images_def sample_test_df_def)
  then obtain a b where ab: "sample_images = [a, b]"
    by (metis (no_types, opaque_lifting) One_nat_def Suc_1 length_0_conv length_Suc_conv)
  show ?thesis
    by (simp add: predicted_classes_def predictions_def predict_def sample_test_images
        ab sample_net_def argmax_def)
qed

lemma str_values: "str 1 = ''1''" "str 2 = ''2''" "str 3 = ''3''"
  by code_simp+

text \<open>On the sample table both rows get class 3, the first of the two maxima.\<close>

theorem predicted_label_is_first_maximum_witness:
  "test_images sample_test_df = Inr sample_images \<and>
   (\<forall>img. length (sample_net img) = 10) \<and> sample_images \<noteq> [] \<and>
   predicted_classes sample_net sample_test_df = Inr [3, 3] \<and>
   (\<exists>labels. predicted_classes sample_net sample_test_df = Inr labels \<and>
      length labels = length sample_images \<and>
      (\<forall>i<length sample_images.
         length (sample_net (sample_images ! i)) = 10 \<and> labels ! i < 10 \<and>
         (\<forall>j<10. sample_net (sample_images ! i) ! j
                   \<le> sample_net (sample_images ! i) ! (labels ! i)) \<and>
         (\<forall>j<labels ! i. sample_net (sample_images ! i) ! j
                   < sample_net (sample_images ! i) ! (labels ! i))))"
  using sample_test_images sample_net_length sample_classes sample_images_nonempty
    predicted_label_is_first_maximum[OF sample_test_images sample_net_length]
  by blast

text \<open>
  Claim C5 as stated, for every \<open>N\<close>, fails at \<open>N = 0\<close>: for the test table with no row it
  promises a table of the header and no rows, and the notebooks stop in \<^verbatim>\<open>model.predict\<close>
  with ValueError before any table is built.
\<close>

theorem empty_test_table_writes_no_submission:
  "df_values empty_test_df = [] \<and>
   submission_df sample_net empty_test_df = Inl ValueError \<and>
   submission_csv sample_net empty_test_df = Inl ValueError"
  by (simp add: empty_test_df_def submission_csv_def submission_df_def predicted_classes_def
      predictions_def predict_def test_images_def load_images_def reshape_def chunks_def
      astype_float32_def divide_by_255_def)

text \<open>The file written for the sample table of two rows.\<close>

theorem submission_rows_follow_input_witness:
  "list_all (\<lambda>r. length r = 784) (df_values sample_test_df) \<and>
   (\<forall>img. length (sample_net img) = 10) \<and> df_values sample_test_df \<noteq> [] \<and>
   submission_csv sample_net sample_test_df = Inr [''ImageId,Label'', ''1,3'', ''2,3'']"
proof -
  obtain labels where l: "predicted_classes sample_net sample_test_df = Inr labels"
    and csv: "submission_csv sample_net sample_test_df =
             Inr (''ImageId,Label'' #
                  map (\<lambda>i. str (int i + 1) @ '','' @ str (int (labels ! i)))
                    [0..<length (df_values sample_test_df)])"
    using submission_rows_follow_input[OF sample_rows sample_net_length] sample_rows_nonempty
    by blast
  have labels: "labels = [3, 3]"
    using l by (simp add: sample_classes)
  have "length (df_values sample_test_df) = 2"
    by (simp add: sample_test_df_def)
  moreover have "[0..<2] = [0, 1::nat]"
    by (simp add: upt_rec)
  ultimately have two: "[0..<length (df_values sample_test_df)] = [0, 1]"
    by simp
  have "submission_csv sample_net sample_test_df = Inr [''ImageId,Label'', ''1,3'', ''2,3'']"
    unfolding csv two labels by (simp add: str_values)
  then show ?thesis
    using sample_rows sample_net_length sample_rows_nonempty by blast
qed

section \<open>Floating point: properties of rounding\<close>

lemma bit_length_upper: "n < 2 ^ bit_length n"
proof (induction n rule: bit_length.induct)
  case (1 n)
  show ?case
  proof (cases "n = 0")
    case True
    then show ?thesis by (simp add: bit_length.simps)
  next
    case False
    then have "n div 2 < 2 ^ bit_length (n div 2)"
      using 1 by simp
    then have "n < 2 * 2 ^ bit_length (n div 2)"
      by linarith
    then show ?thesis
      using False by (subst bit_length.simps) simp
  qed
qed

lemma bit_length_pos: "0 < n \<Longrightarrow> 0 < bit_length n"
  by (subst bit_length.simps) simp

lemma bit_length_lower: "0 < n \<Longrightarrow> 2 ^ (bit_length n - 1) \<le> n"
proof (induction n rule: bit_length.induct)
  case (1 n)
  show ?case
  proof (cases "n div 2 = 0")
    case True
    then show ?thesis
      using 1(2) by (subst bit_length.simps, subst bit_length.simps) simp
  next
    case False
    then have "2 ^ (bit_length (n div 2) - 1) \<le> n div 2"
      using 1 by simp
    moreover have "0 < bit_length (n div 2)"
      using False by (intro bit_length_pos) simp
    ultimately have "2 ^ bit_length (n div 2) \<le> 2 * (n div 2)"
      by (cases "bit_length (n div 2)") simp_all
    then have "2 ^ bit_length (n div 2) \<le> n"
      by linarith
    then show ?thesis
      using 1(2) by (subst bit_length.simps) simp
  qed
qed

lemma exponent_lower:
  assumes "0 < x"
  shows "2 powi exponent x \<le> x"
proof (cases "1 \<le> x")
  case True
  define m where "m = nat \<lfloor>x\<rfloor>"
  have m: "0 < m"
    using True by (simp add: m_def)
  have "(2::nat) ^ (bit_length m - 1) \<le> m"
    using m by (rule bit_length_lower)
  then have "(2::rat) ^ (bit_length m - 1) \<le> of_nat m"
    by (metis of_nat_le_iff of_nat_numeral of_nat_power)
  also have "\<dots> \<le> x"
    using True by (simp add: m_def)
  finally have "(2::rat) ^ (bit_length m - 1) \<le> x" .
  moreover have "exponent x = int (bit_length m - 1)"
    using True bit_length_pos[OF m] by (simp add: exponent_def m_def)
  ultimately show ?thesis
    by simp
next
  case False
  define c where "c = \<lceil>1 / x\<rceil>"
  define m where "m = nat (c - 1)"
  have y: "1 < 1 / x"
    using False assms by simp
  then have c: "2 \<le> c"
    unfolding c_def by linarith
  have "m < 2 ^ bit_length m"
    by (rule bit_length_upper)
  then have "c \<le> 2 ^ bit_length m"
    using c by (simp add: m_def nat_less_iff)
  then have "(of_int c :: rat) \<le> 2 ^ bit_length m"
    by (metis of_int_le_iff of_int_numeral of_int_power)
  moreover have "1 / x \<le> of_int c"
    unfolding c_def by linarith
  ultimately have "1 / x \<le> 2 ^ bit_length m"
    by linarith
  then have "1 / 2 ^ bit_length m \<le> x"
    using assms by (simp add: field_simps)
  moreover have "exponent x = - int (bit_length m)"
    using False by (simp add: exponent_def m_def c_def)
  ultimately show ?thesis
    by (simp add: power_int_minus field_simps)
qed

lemma exponent_upper:
  assumes "0 < x"
  shows "x < 2 powi (exponent x + 1)"
proof (cases "1 \<le> x")
  case True
  define m where "m = nat \<lfloor>x\<rfloor>"
  have "m < 2 ^ bit_length m"
    by (rule bit_length_upper)
  then have "int m + 1 \<le> 2 ^ bit_length m"
    by (metis of_nat_less_iff of_nat_numeral of_nat_power zless_imp_add1_zle)
  then have "(of_int (int m + 1) :: rat) \<le> 2 ^ bit_length m"
    by (metis of_int_le_iff of_int_numeral of_int_power)
  moreover have "x < of_int (int m + 1)"
    using True unfolding m_def by (simp; linarith)
  ultimately have "x < 2 ^ bit_length m"
    by linarith
  moreover have "exponent x + 1 = int (bit_length m)"
    using True by (simp add: exponent_def m_def)
  ultimately show ?thesis
    by simp
next
  case False
  define c where "c = \<lceil>1 / x\<rceil>"
  define m where "m = nat (c - 1)"
  have y: "1 < 1 / x"
    using False assms by simp
  then have c: "2 \<le> c"
    unfolding c_def by linarith
  then have m: "0 < m"
    by (simp add: m_def)
  have "(2::nat) ^ (bit_length m - 1) \<le> m"
    using m by (rule bit_length_lower)
  then have "(2::rat) ^ (bit_length m - 1) \<le> of_nat m"
    by (metis of_nat_le_iff of_nat_numeral of_nat_power)
  also have "\<dots> = of_int c - 1"
    using c by (simp add: m_def)
  also have "\<dots> < 1 / x"
    unfolding c_def by linarith
  finally have "(2::rat) ^ (bit_length m - 1) < 1 / x" .
  then have "x < 1 / 2 ^ (bit_length m - 1)"
    using assms by (simp add: field_simps)
  moreover have "exponent x + 1 = - int (bit_length m - 1)"
    using False bit_length_pos[OF m] by (simp add: exponent_def m_def c_def)
  ultimately show ?thesis
    by (simp add: power_int_minus field_simps)
qed

lemma exponent_le:
  assumes "0 < x" "x < 2 powi (i + 1)"
  shows "exponent x \<le> i"
proof (rule ccontr)
  assume "\<not> exponent x \<le> i"
  then have "i + 1 \<le> exponent x"
    by simp
  then have "(2::rat) powi (i + 1) \<le> 2 powi exponent x"
    by (intro power_int_increasing) simp_all
  then show False
    using exponent_lower[OF assms(1)] assms(2) by linarith
qed

lemma exponent_abs_bound:
  assumes "0 < x" "x < 2 ^ p"
  shows "exponent \<bar>x\<bar> \<le> int p - 1"
proof -
  have "x < 2 powi (int p - 1 + 1)"
    using assms(2) by simp
  then have "exponent x \<le> int p - 1"
    by (rule exponent_le[OF assms(1)])
  moreover have "\<bar>x\<bar> = x"
    using assms(1) by simp
  ultimately show ?thesis
    by (simp only:)
qed

lemma rhe_floor: "\<lfloor>t\<rfloor> \<le> round_half_even t"
  by (simp add: round_half_even_def Let_def)

lemma rhe_of_int: "round_half_even (of_int k) = k"
  by (simp add: round_half_even_def)

lemma rhe_ge:
  assumes "of_int k \<le> t"
  shows "k \<le> round_half_even t"
proof -
  have "k \<le> \<lfloor>t\<rfloor>"
    using assms by (simp add: le_floor_iff)
  then show ?thesis
    using rhe_floor[of t] by linarith
qed

lemma rhe_le:
  assumes "t \<le> of_int k"
  shows "round_half_even t \<le> k"
proof (cases "t = of_int k")
  case True
  then show ?thesis by (simp add: rhe_of_int)
next
  case False
  then have "t < of_int k"
    using assms by simp
  then have "\<lfloor>t\<rfloor> < k"
    by (simp add: floor_less_iff)
  then show ?thesis
    by (auto simp: round_half_even_def Let_def)
qed

lemma rhe_error: "\<bar>of_int (round_half_even t) - t\<bar> \<le> 1 / 2"
proof -
  have "of_int \<lfloor>t\<rfloor> \<le> t" "t < of_int \<lfloor>t\<rfloor> + 1"
    by linarith+
  then show ?thesis
    by (auto simp: round_half_even_def Let_def abs_le_iff)
qed

lemma rhe_near:
  assumes "of_int m \<le> t" "t < of_int m + 1 / 2"
  shows "round_half_even t = m"
proof -
  have "\<lfloor>t\<rfloor> = m"
    using assms by (intro floor_unique) simp_all
  then show ?thesis
    using assms by (simp add: round_half_even_def)
qed

lemma ulp_pos: "0 < ulp p x"
  by (simp add: ulp_def)

lemma fl_pos: "0 < x \<Longrightarrow> fl p x = ulp p x * of_int (round_half_even (x / ulp p x))"
  by (simp add: fl_def)

lemma fl_grid_ge:
  assumes "0 < x" "of_int k * ulp p x \<le> x"
  shows "of_int k * ulp p x \<le> fl p x"
proof -
  have "of_int k \<le> x / ulp p x"
    using assms(2) ulp_pos[of p x] by (simp add: field_simps)
  then have "k \<le> round_half_even (x / ulp p x)"
    by (rule rhe_ge)
  then have "(of_int k :: rat) \<le> of_int (round_half_even (x / ulp p x))"
    by simp
  then have "of_int k * ulp p x \<le> of_int (round_half_even (x / ulp p x)) * ulp p x"
    using ulp_pos[of p x] by (simp only: mult_le_cancel_right) simp
  then show ?thesis
    using assms(1) by (simp add: fl_pos mult.commute)
qed

lemma fl_grid_le:
  assumes "0 < x" "x \<le> of_int k * ulp p x"
  shows "fl p x \<le> of_int k * ulp p x"
proof -
  have "x / ulp p x \<le> of_int k"
    using assms(2) ulp_pos[of p x] by (simp add: field_simps)
  then have "round_half_even (x / ulp p x) \<le> k"
    by (rule rhe_le)
  then have "(of_int (round_half_even (x / ulp p x)) :: rat) \<le> of_int k"
    by simp
  then have "of_int (round_half_even (x / ulp p x)) * ulp p x \<le> of_int k * ulp p x"
    using ulp_pos[of p x] by (simp only: mult_le_cancel_right) simp
  then show ?thesis
    using assms(1) by (simp add: fl_pos mult.commute)
qed

lemma fl_error:
  assumes "0 < x"
  shows "\<bar>fl p x - x\<bar> \<le> ulp p x / 2"
proof -
  define u where "u = ulp p x"
  have u: "0 < u"
    by (simp add: u_def ulp_pos)
  have "\<bar>of_int (round_half_even (x / u)) - x / u\<bar> \<le> 1 / 2"
    by (rule rhe_error)
  then have "u * \<bar>of_int (round_half_even (x / u)) - x / u\<bar> \<le> u * (1 / 2)"
    using u by (simp only: mult_le_cancel_left_pos)
  moreover have "u * (of_int (round_half_even (x / u)) - x / u) =
      u * of_int (round_half_even (x / u)) - x"
    using u by (simp add: field_simps)
  then have "u * \<bar>of_int (round_half_even (x / u)) - x / u\<bar> =
      \<bar>u * of_int (round_half_even (x / u)) - x\<bar>"
    using u by (metis abs_mult abs_of_pos)
  ultimately show ?thesis
    using assms by (simp add: fl_pos u_def)
qed

lemma fl_nonneg: "0 \<le> x \<Longrightarrow> 0 \<le> fl p x"
  using fl_grid_ge[of x 0 p] by (cases "x = 0") (simp_all add: fl_def)

lemma ulp_inverse:
  assumes "exponent \<bar>x\<bar> \<le> int p - 1"
  shows "ulp p x = 1 / 2 ^ nat (int p - 1 - exponent \<bar>x\<bar>)"
proof -
  have "exponent \<bar>x\<bar> - (int p - 1) = - int (nat (int p - 1 - exponent \<bar>x\<bar>))"
    using assms by simp
  then show ?thesis
    unfolding ulp_def by (simp only: power_int_minus_divide power_int_of_nat)
qed

lemma integer_on_grid:
  assumes "exponent \<bar>x\<bar> \<le> int p - 1"
  shows "of_int v = of_int (v * 2 ^ nat (int p - 1 - exponent \<bar>x\<bar>)) * ulp p x"
  by (simp add: ulp_inverse[OF assms])

lemma fl_le_integer:
  assumes "0 < x" "x < 2 ^ p" "x \<le> of_int v"
  shows "fl p x \<le> of_int v"
proof -
  have e: "exponent \<bar>x\<bar> \<le> int p - 1"
    using assms(1,2) by (rule exponent_abs_bound)
  show ?thesis
    using fl_grid_le[OF assms(1), of _ p] assms(3) integer_on_grid[OF e, of v]
    by metis
qed

lemma fl_ge_integer:
  assumes "0 < x" "x < 2 ^ p" "of_int v \<le> x"
  shows "of_int v \<le> fl p x"
proof -
  have e: "exponent \<bar>x\<bar> \<le> int p - 1"
    using assms(1,2) by (rule exponent_abs_bound)
  show ?thesis
    using fl_grid_ge[OF assms(1), of _ p] assms(3) integer_on_grid[OF e, of v]
    by metis
qed

lemma fl_integer:
  assumes "0 \<le> v" "v < 2 ^ p"
  shows "fl p (of_int v) = of_int v"
proof (cases "v = 0")
  case True
  then show ?thesis by (simp add: fl_def)
next
  case False
  then have pos: "0 < (of_int v :: rat)"
    using assms(1) by simp
  have "(of_int v :: rat) < of_int (2 ^ p)"
    using assms(2) by (simp only: of_int_less_iff)
  then have lt: "(of_int v :: rat) < 2 ^ p"
    by simp
  show ?thesis
    using fl_le_integer[OF pos lt, of v] fl_ge_integer[OF pos lt, of v]
    by simp
qed

lemma fl_unit:
  assumes "0 \<le> x" "x \<le> 1" "0 < p"
  shows "0 \<le> fl p x \<and> fl p x \<le> 1"
proof (cases "x = 0")
  case True
  then show ?thesis by (simp add: fl_def)
next
  case False
  then have pos: "0 < x"
    using assms(1) by simp
  have "(1::rat) < 2 ^ p"
    using assms(3) by (simp add: one_less_power)
  then have lt: "x < 2 ^ p"
    using assms(2) by linarith
  show ?thesis
    using fl_le_integer[OF pos lt, of 1] fl_nonneg[OF assms(1), of p] assms(2)
    by simp
qed

lemma normalise_range:
  assumes "0 \<le> v" "v \<le> 255"
  shows "normalise v = float32 (of_int v / 255)"
    and "0 \<le> normalise v" and "normalise v \<le> 1"
    and "\<bar>normalise v - of_int v / 255\<bar> \<le> 1 / 2 ^ 25"
proof -
  define x :: rat where "x = of_int v / 255"
  have x: "0 \<le> x" "x \<le> 1"
    using assms by (simp_all add: x_def)
  have "fl 24 (of_int v) = of_int v"
    using assms by (intro fl_integer) simp_all
  then show eq: "normalise v = float32 (of_int v / 255)"
    by (simp add: normalise_def float32_def)
  show "0 \<le> normalise v" "normalise v \<le> 1"
    using fl_unit[OF x, of 24] by (simp_all add: eq float32_def x_def)
  show "\<bar>normalise v - of_int v / 255\<bar> \<le> 1 / 2 ^ 25"
  proof (cases "x = 0 \<or> x = 1")
    case True
    moreover have "fl 24 1 = 1"
      using fl_integer[of 1 24] by simp
    ultimately have "fl 24 x = x"
      by (auto simp: fl_def)
    then show ?thesis
      by (simp add: eq float32_def x_def)
  next
    case False
    then have pos: "0 < x" and lt: "x < 2 powi (- 1 + 1)"
      using x by simp_all
    have "exponent x \<le> - 1"
      using pos lt by (rule exponent_le)
    then have "ulp 24 x \<le> 2 powi (- 24)"
      using pos unfolding ulp_def by (intro power_int_increasing) simp_all
    then have "ulp 24 x / 2 \<le> 1 / 2 ^ 25"
      by (simp add: power_int_minus_divide)
    moreover have "\<bar>fl 24 x - x\<bar> \<le> ulp 24 x / 2"
      using pos by (rule fl_error)
    ultimately show ?thesis
      by (simp add: eq float32_def x_def)
  qed
qed

lemma has_shape_map:
  "has_shape h w c t \<Longrightarrow> has_shape h w c (map (map (map f)) t)"
  by (auto simp: has_shape_def list_all_iff)

lemma pixel_map:
  assumes "has_shape 28 28 1 t" "r < 28" "c < 28"
  shows "pixel (map (map (map f)) t) r c = f (pixel t r c)"
proof -
  have "r < length t"
    using assms by (simp add: has_shape_def)
  moreover have "t ! r \<in> set t"
    using \<open>r < length t\<close> by simp
  then have row: "length (t ! r) = 28" "list_all (\<lambda>p. length p = 1) (t ! r)"
    using assms(1) by (auto simp: has_shape_def list_all_iff)
  moreover have "t ! r ! c \<in> set (t ! r)"
    using row(1) assms(3) by simp
  then have "length (t ! r ! c) = 1"
    using row(2) by (auto simp: list_all_iff)
  ultimately show ?thesis
    using assms(3) by (simp add: pixel_def)
qed

section \<open>Loader: properties\<close>

text \<open>
  Claim C3. For every table whose rows are 784 integers between 0 and 255, the loader
  returns one tensor of shape \<open>28 \<times> 28 \<times> 1\<close> per row; element \<open>(r, c)\<close> of tensor \<open>i\<close> is
  the raw value \<open>a ! i ! (28 r + c)\<close> divided by 255 in binary32, which is within \<open>1 / 2^25\<close> of
  the exact quotient, and lies between 0 and 1. Both \<open>train_images\<close> and \<open>test_images\<close> are
  \<open>load_images\<close> of the pixel columns.
\<close>

theorem normalised_pixels_in_unit_interval:
  assumes "list_all (\<lambda>r. length r = 784 \<and> list_all (\<lambda>v. 0 \<le> v \<and> v \<le> 255) r) a"
  shows "\<exists>imgs. load_images a = Inr imgs \<and> length imgs = length a \<and>
           (\<forall>i<length a. has_shape 28 28 1 (imgs ! i) \<and>
              (\<forall>r<28. \<forall>c<28.
                 pixel (imgs ! i) r c = float32 (of_int (a ! i ! (r * 28 + c)) / 255) \<and>
                 \<bar>pixel (imgs ! i) r c - of_int (a ! i ! (r * 28 + c)) / 255\<bar> \<le> 1 / 2 ^ 25 \<and>
                 0 \<le> pixel (imgs ! i) r c \<and> pixel (imgs ! i) r c \<le> 1))"
proof -
  have rows: "list_all (\<lambda>r. length r = 784) a"
    using assms by (simp add: list_all_iff)
  define imgs where "imgs = map (\<lambda>r. map (map (map normalise)) (to_image r)) a"
  have load: "load_images a = Inr imgs"
    by (simp add: load_images_rows[OF rows] imgs_def)
  have "has_shape 28 28 1 (imgs ! i) \<and>
        (\<forall>r<28. \<forall>c<28.
           pixel (imgs ! i) r c = float32 (of_int (a ! i ! (r * 28 + c)) / 255) \<and>
           \<bar>pixel (imgs ! i) r c - of_int (a ! i ! (r * 28 + c)) / 255\<bar> \<le> 1 / 2 ^ 25 \<and>
           0 \<le> pixel (imgs ! i) r c \<and> pixel (imgs ! i) r c \<le> 1)"
    if i: "i < length a" for i
  proof -
    have ai: "a ! i \<in> set a"
      using i by simp
    then have len: "length (a ! i) = 784"
      using rows by (simp add: list_all_iff)
    have shape: "has_shape 28 28 1 (to_image (a ! i))"
      using len by (rule has_shape_to_image)
    have img: "imgs ! i = map (map (map normalise)) (to_image (a ! i))"
      using i by (simp add: imgs_def)
    have "pixel (imgs ! i) r c = float32 (of_int (a ! i ! (r * 28 + c)) / 255) \<and>
           \<bar>pixel (imgs ! i) r c - of_int (a ! i ! (r * 28 + c)) / 255\<bar> \<le> 1 / 2 ^ 25 \<and>
           0 \<le> pixel (imgs ! i) r c \<and> pixel (imgs ! i) r c \<le> 1"
      if rc: "r < 28" "c < 28" for r c
    proof -
      have px: "pixel (imgs ! i) r c = normalise (a ! i ! (r * 28 + c))"
        by (simp add: img pixel_map[OF shape rc] pixel_to_image[OF len rc])
      have "r * 28 + c < 784"
        using rc by simp
      then have "a ! i ! (r * 28 + c) \<in> set (a ! i)"
        using len by simp
      then have "0 \<le> a ! i ! (r * 28 + c)" "a ! i ! (r * 28 + c) \<le> 255"
        using assms ai by (auto simp: list_all_iff)
      then show ?thesis
        using normalise_range[of "a ! i ! (r * 28 + c)"] by (simp add: px)
    qed
    then have "\<forall>r<28. \<forall>c<28.
           pixel (imgs ! i) r c = float32 (of_int (a ! i ! (r * 28 + c)) / 255) \<and>
           \<bar>pixel (imgs ! i) r c - of_int (a ! i ! (r * 28 + c)) / 255\<bar> \<le> 1 / 2 ^ 25 \<and>
           0 \<le> pixel (imgs ! i) r c \<and> pixel (imgs ! i) r c \<le> 1"
      by blast
    moreover have "has_shape 28 28 1 (imgs ! i)"
      unfolding img using shape by (rule has_shape_map)
    ultimately show ?thesis
      by blast
  qed
  moreover have "length imgs = length a"
    by (simp add: imgs_def)
  ultimately show ?thesis
    using load by blast
qed

lemma float32_values: "float32 (1 / 255) = 8421505 / 2147483648" "float32 (255 / 255) = 1"
  unfolding float32_def by code_simp+

lemma sample_pixels:
  "list_all (\<lambda>r. length r = 784 \<and> list_all (\<lambda>v. 0 \<le> v \<and> v \<le> 255) r)
     (df_values sample_test_df)"
proof -
  have "k mod 256 \<le> 255" for k :: nat
    using mod_less_divisor[of 256 k] by linarith
  then show ?thesis
    by (simp add: sample_test_df_def list_all_iff)
qed

lemma sample_load: "load_images (df_values sample_test_df) = Inr sample_images"
  using sample_test_images by (simp add: test_images_def)

text \<open>On the sample table: the second row holds the values \<open>k mod 256\<close>, so its pixel
  \<open>(0, 1)\<close> is the binary32 quotient \<open>1 / 255\<close> and its pixel \<open>(9, 3)\<close>, raw value 255, is 1.\<close>

theorem normalised_pixels_in_unit_interval_witness:
  "list_all (\<lambda>r. length r = 784 \<and> list_all (\<lambda>v. 0 \<le> v \<and> v \<le> 255) r)
     (df_values sample_test_df) \<and>
   load_images (df_values sample_test_df) = Inr sample_images \<and>
   has_shape 28 28 1 (sample_images ! 1) \<and>
   pixel (sample_images ! 1) 0 1 = 8421505 / 2147483648 \<and>
   pixel (sample_images ! 1) 9 3 = 1"
proof -
  obtain imgs where imgs: "load_images (df_values sample_test_df) = Inr imgs"
    and all: "\<forall>i<length (df_values sample_test_df). has_shape 28 28 1 (imgs ! i) \<and>
              (\<forall>r<28. \<forall>c<28.
                 pixel (imgs ! i) r c =
                   float32 (of_int (df_values sample_test_df ! i ! (r * 28 + c)) / 255))"
    using normalised_pixels_in_unit_interval[OF sample_pixels] by blast
  have eq: "imgs = sample_images"
    using imgs by (simp add: sample_load)
  have one: "1 < length (df_values sample_test_df)"
    by (simp add: sample_test_df_def)
  have row: "df_values sample_test_df ! 1 ! k = int (k mod 256)" if "k < 784" for k
    using that by (simp add: sample_test_df_def)
  have shape: "has_shape 28 28 1 (sample_images ! 1)"
    using all one eq by blast
  have px: "pixel (sample_images ! 1) r c =
      float32 (of_int (df_values sample_test_df ! 1 ! (r * 28 + c)) / 255)"
    if "r < 28" "c < 28" for r c
    using all one eq that by blast
  have "df_values sample_test_df ! 1 ! (0 * 28 + 1) = 1"
    by (subst row) simp_all
  then have "pixel (sample_images ! 1) 0 1 = float32 (1 / 255)"
    by (subst px) simp_all
  then have p01: "pixel (sample_images ! 1) 0 1 = 8421505 / 2147483648"
    by (simp only: float32_values)
  have "df_values sample_test_df ! 1 ! (9 * 28 + 3) = 255"
    by (subst row) simp_all
  then have "pixel (sample_images ! 1) 9 3 = float32 (255 / 255)"
    by (subst px) simp_all
  then have p93: "pixel (sample_images ! 1) 9 3 = 1"
    by (simp only: float32_values)
  show ?thesis
    using sample_pixels sample_load shape p01 p93 by blast
qed

lemma pixels_of_to_image:
  assumes "length px = 784"
  shows "pixels_of (to_image px) = px"
proof -
  have "concat (concat (map (map (\<lambda>p. [p])) cs)) = concat cs" for cs :: "'a list list"
    by (induction cs) simp_all
  moreover have "concat (chunks 28 px) = px"
    using assms by (intro concat_chunks) simp
  ultimately show ?thesis
    by (simp add: pixels_of_def to_image_def)
qed

lemma pixels_of_map: "pixels_of (map (map (map f)) t) = map f (pixels_of t)"
  by (simp add: pixels_of_def map_concat comp_def)

text \<open>
  Claim C10. The loader does not look at the width of the rows. A table whose rows have
  \<open>w \<noteq> 784\<close> values loads without an error whenever the number of values in all is a
  multiple of 784: the values are read in row-major order and cut into images of 784,
  so an image is made of parts of several rows.
\<close>

theorem reshape_accepts_other_row_widths:
  assumes "list_all (\<lambda>r. length r = w) a" "w \<noteq> 784" "(length a * w) mod 784 = 0"
  shows "\<exists>imgs. load_images a = Inr imgs \<and> length imgs = length a * w div 784 \<and>
           list_all (has_shape 28 28 1) imgs \<and>
           concat (map pixels_of imgs) = map normalise (concat a)"
proof -
  define flat where "flat = concat a"
  have len: "length flat = length a * w"
    unfolding flat_def using assms(1) by (rule length_concat_rows)
  define ts where "ts = map to_image (chunks 784 flat)"
  define imgs where "imgs = map (map (map (map normalise))) ts"
  have "reshape a = Inr ts"
    using assms(3) by (simp add: reshape_def flat_def[symmetric] len ts_def)
  then have load: "load_images a = Inr imgs"
    by (simp add: load_images_def imgs_def astype_float32_def divide_by_255_def
        normalise_def comp_def)
  have n: "length imgs = length a * w div 784"
    by (simp add: imgs_def ts_def length_chunks len)
  have c784: "length c = 784" if "c \<in> set (chunks 784 flat)" for c
    using that by (rule chunks_member_length)
  have "has_shape 28 28 1 t" if "t \<in> set imgs" for t
  proof -
    have "t \<in> set (map (map (map (map normalise))) ts)"
      using that unfolding imgs_def .
    then obtain ti where ti: "ti \<in> set ts" "t = map (map (map normalise)) ti"
      by auto
    have "ti \<in> set (map to_image (chunks 784 flat))"
      using ti(1) unfolding ts_def .
    then obtain c where c0: "c \<in> set (chunks 784 flat)" "ti = to_image c"
      by auto
    have c: "c \<in> set (chunks 784 flat)" "t = map (map (map normalise)) (to_image c)"
      using c0 ti(2) by simp_all
    have "has_shape 28 28 1 (to_image c)"
      using c784[OF c(1)] by (rule has_shape_to_image)
    then show ?thesis
      unfolding c(2) by (rule has_shape_map)
  qed
  then have shapes: "list_all (has_shape 28 28 1) imgs"
    by (simp add: list_all_iff)
  have "map pixels_of imgs = map (map normalise) (chunks 784 flat)"
    using c784 by (simp add: imgs_def ts_def pixels_of_map pixels_of_to_image)
  then have "concat (map pixels_of imgs) = map normalise (concat (chunks 784 flat))"
    by (simp add: map_concat)
  also have "concat (chunks 784 flat) = flat"
    using assms(3) by (intro concat_chunks) (simp add: len)
  finally have "concat (map pixels_of imgs) = map normalise (concat a)"
    by (simp only: flat_def)
  then show ?thesis
    using load n shapes by blast
qed

text \<open>Two rows of 392 values load as one image, the second row its lower half.\<close>

theorem reshape_accepts_other_row_widths_witness:
  "list_all (\<lambda>r. length r = 392) two_half_rows \<and> (392::nat) \<noteq> 784 \<and>
   (length two_half_rows * 392) mod 784 = 0 \<and>
   (\<exists>imgs. load_images two_half_rows = Inr imgs \<and> length imgs = 1 \<and>
      list_all (has_shape 28 28 1) imgs \<and>
      concat (map pixels_of imgs) = map normalise (replicate 392 0 @ replicate 392 255))"
proof -
  have h1: "list_all (\<lambda>r. length r = 392) two_half_rows"
    by (simp add: two_half_rows_def)
  have h2: "(392::nat) \<noteq> 784"
    by simp
  have h3: "(length two_half_rows * 392) mod 784 = 0"
    by (simp add: two_half_rows_def)
  have "length two_half_rows * 392 div 784 = 1"
    by (simp add: two_half_rows_def)
  moreover have "concat two_half_rows = replicate 392 0 @ replicate 392 255"
    by (simp add: two_half_rows_def)
  ultimately show ?thesis
    using h1 h2 h3 reshape_accepts_other_row_widths[OF h1 h2 h3] by simp
qed

section \<open>Splitter: the size of the test set\<close>

lemma test_size_value: "test_size = 3602879701896397 / 18014398509481984"
  unfolding test_size_def float64_def by code_simp

lemma product_multiple_of_5:
  assumes "0 < k" "k < 2 ^ 50"
  shows "fl 53 (test_size * of_nat (5 * k)) = of_nat k"
proof -
  define x :: rat where "x = test_size * of_nat (5 * k)"
  have xk: "x = of_nat k + of_nat k / 2 ^ 54"
    by (simp add: x_def test_size_value field_simps)
  have kr: "(of_nat k :: rat) < 2 ^ 50" "(1::rat) \<le> of_nat k"
    using assms by (simp_all add: of_nat_less_numeral_power_cancel_iff Suc_le_eq)
  have pos: "0 < x"
    using kr by (simp add: xk add_pos_pos)
  have "x < 2 ^ 53"
    using kr by (simp add: xk)
  then have e: "exponent \<bar>x\<bar> \<le> int 53 - 1"
    using pos by (intro exponent_abs_bound) simp_all
  define j where "j = nat (int 53 - 1 - exponent \<bar>x\<bar>)"
  have u: "ulp 53 x = 1 / 2 ^ j"
    using ulp_inverse[OF e] by (simp add: j_def)
  have ax: "\<bar>x\<bar> = x"
    using pos by simp
  have "x < 2 powi (exponent x + 1)"
    using pos by (rule exponent_upper)
  also have "exponent x + 1 = 53 - int j"
    using e by (simp add: j_def ax)
  finally have "x * 2 ^ j < 2 powi (53 - int j) * 2 powi (int j)"
    by simp
  also have "\<dots> = 2 powi (53 - int j + int j)"
    by (rule power_int_add[symmetric]) simp
  also have "\<dots> = 2 ^ 53"
    by simp
  finally have b: "x * 2 ^ j < 2 ^ 53" .
  have "of_nat k \<le> x"
    by (simp add: xk)
  then have "of_nat k * 2 ^ j \<le> x * 2 ^ j"
    by simp
  then have kj: "(of_nat k :: rat) * 2 ^ j < 2 ^ 53"
    using b by (rule le_less_trans)
  define m where "m = int k * 2 ^ j"
  have m: "(of_int m :: rat) = of_nat k * 2 ^ j"
    by (simp add: m_def)
  have c: "(of_int m :: rat) < 2 ^ 53"
    using kj by (simp only: m)
  have m0: "(0::rat) \<le> of_int m"
    by (simp add: m_def)
  have "x / ulp 53 x = x * 2 ^ j"
    by (simp add: u)
  also have "\<dots> = of_nat k * 2 ^ j + of_nat k * 2 ^ j / 2 ^ 54"
    by (simp add: xk field_simps)
  finally have qq: "x / ulp 53 x = of_int m + of_int m / 2 ^ 54"
    by (simp only: m)
  define d :: rat where "d = of_int m / 2 ^ 54"
  have q: "x / ulp 53 x = of_int m + d"
    unfolding d_def by (fact qq)
  have d: "0 \<le> d" "d < 1 / 2"
    using m0 c by (simp_all add: d_def)
  have "of_int m \<le> x / ulp 53 x"
    using q d by linarith
  moreover have "x / ulp 53 x < of_int m + 1 / 2"
    using q d by linarith
  ultimately have "round_half_even (x / ulp 53 x) = m"
    by (rule rhe_near)
  then have "fl 53 x = ulp 53 x * of_int m"
    using pos by (simp add: fl_pos)
  also have "\<dots> = of_nat k"
    by (simp add: u m)
  finally show ?thesis
    by (simp only: x_def)
qed

lemma product_not_multiple_of_5:
  assumes "n mod 5 \<noteq> 0" "n < 2 ^ 50"
  shows "\<lceil>fl 53 (test_size * of_nat n)\<rceil> = int (n div 5) + 1"
proof -
  define x :: rat where "x = test_size * of_nat n"
  define k where "k = n div 5"
  define r where "r = n mod 5"
  have n: "n = 5 * k + r"
    by (simp add: k_def r_def)
  have r: "1 \<le> r" "r \<le> 4"
    using assms(1) by (simp_all add: r_def)
  have nr: "(of_nat n :: rat) = 5 * of_nat k + of_nat r"
    by (simp add: n)
  have rr: "(1::rat) \<le> of_nat r" "(of_nat r :: rat) \<le> 4"
    using r by (simp_all add: Suc_le_eq)
  have kr: "(of_nat n :: rat) < 2 ^ 50" "(0::rat) \<le> of_nat k"
    using assms(2) by (simp_all add: of_nat_less_numeral_power_cancel_iff)
  have xv: "x = of_nat n / 5 + of_nat n / (5 * 2 ^ 54)"
    by (simp add: x_def test_size_value field_simps)
  have lo: "of_nat k + 1 / 5 \<le> x"
    using rr kr by (simp add: xv nr)
  have hi: "x \<le> of_nat k + 1"
    using rr kr by (simp add: xv nr)
  have pos: "0 < x"
    using lo kr by linarith
  have lt50: "x < 2 ^ 50"
    using kr(1) rr by (simp add: xv)
  then have lt: "x < 2 ^ 53"
    by simp
  have le: "fl 53 x \<le> of_int (int k + 1)"
    using hi by (intro fl_le_integer[OF pos lt]) simp_all
  have "x < 2 powi (49 + 1)"
    using lt50 by simp
  then have "exponent x \<le> 49"
    by (rule exponent_le[OF pos])
  then have "ulp 53 x \<le> 2 powi (- 3)"
    using pos unfolding ulp_def by (intro power_int_increasing) simp_all
  then have "ulp 53 x \<le> 1 / 8"
    by (simp add: power_int_minus_divide)
  moreover have "\<bar>fl 53 x - x\<bar> \<le> ulp 53 x / 2"
    using pos by (rule fl_error)
  ultimately have "of_nat k < fl 53 x"
    using lo by linarith
  then have "\<lceil>fl 53 x\<rceil> = int k + 1"
    using le by (intro ceiling_unique) simp_all
  then show ?thesis
    by (simp add: x_def k_def)
qed

lemma n_test_eq:
  assumes "n < 2 ^ 50"
  shows "nat \<lceil>float64 (test_size * of_nat n)\<rceil> = (n + 4) div 5"
proof (cases "n mod 5 = 0")
  case True
  show ?thesis
  proof (cases "n = 0")
    case True
    then show ?thesis
      by (simp add: float64_def fl_def)
  next
    case False
    define k where "k = n div 5"
    have n: "n = 5 * k"
      using True unfolding k_def by presburger
    have "0 < k" "k < 2 ^ 50"
      using False assms n by simp_all
    then have "fl 53 (test_size * of_nat (5 * k)) = of_nat k"
      by (rule product_multiple_of_5)
    then show ?thesis
      unfolding float64_def n by simp
  qed
next
  case False
  then have "\<lceil>fl 53 (test_size * of_nat n)\<rceil> = int (n div 5) + 1"
    using assms by (rule product_not_multiple_of_5)
  moreover have "(n + 4) div 5 = n div 5 + 1"
    using False by presburger
  ultimately show ?thesis
    by (simp add: float64_def)
qed

lemma fifth_bounds:
  fixes n :: nat
  shows "5 * ((n + 4) div 5) \<le> n + 4" and "n \<le> 5 * ((n + 4) div 5)"
proof -
  show "5 * ((n + 4) div 5) \<le> n + 4"
    by (rule times_div_less_eq_dividend)
  have "n + 4 < 5 + 5 * ((n + 4) div 5)"
    by (rule dividend_less_times_div) simp
  then show "n \<le> 5 * ((n + 4) div 5)"
    by simp
qed

lemma fifth_bounds_rat:
  "5 * rat_of_nat ((n + 4) div 5) \<le> of_nat n + 4" "rat_of_nat n \<le> 5 * of_nat ((n + 4) div 5)"
proof -
  have "rat_of_nat (5 * ((n + 4) div 5)) \<le> rat_of_nat (n + 4)"
    using fifth_bounds(1)[of n] by (simp only: of_nat_le_iff)
  then show "5 * rat_of_nat ((n + 4) div 5) \<le> of_nat n + 4"
    by (simp only: of_nat_mult of_nat_add of_nat_numeral)
  have "rat_of_nat n \<le> rat_of_nat (5 * ((n + 4) div 5))"
    using fifth_bounds(2)[of n] by (simp only: of_nat_le_iff)
  then show "rat_of_nat n \<le> 5 * of_nat ((n + 4) div 5)"
    by (simp only: of_nat_mult of_nat_numeral)
qed

lemma ceiling_fifth: "nat \<lceil>of_nat n / (5::rat)\<rceil> = (n + 4) div 5"
proof -
  have "\<lceil>of_nat n / (5::rat)\<rceil> = int ((n + 4) div 5)"
  proof (rule ceiling_unique)
    show "of_int (int ((n + 4) div 5)) - 1 < of_nat n / (5::rat)"
      using fifth_bounds_rat(1)[of n] by simp
    show "of_nat n / (5::rat) \<le> of_int (int ((n + 4) div 5))"
      using fifth_bounds_rat(2)[of n] by simp
  qed
  then show ?thesis
    by simp
qed

lemma fifth_le: "(n + 4) div 5 \<le> (n::nat)"
  using fifth_bounds(1)[of n] by (cases "n = 0") simp_all

lemma floor_four_fifths: "nat \<lfloor>4 * of_nat n / (5::rat)\<rfloor> = n - (n + 4) div 5"
proof -
  have d: "rat_of_nat (n - (n + 4) div 5) = of_nat n - of_nat ((n + 4) div 5)"
    using fifth_le[of n] by (rule of_nat_diff)
  have "\<lfloor>4 * of_nat n / (5::rat)\<rfloor> = int (n - (n + 4) div 5)"
  proof (rule floor_unique)
    show "of_int (int (n - (n + 4) div 5)) \<le> 4 * of_nat n / (5::rat)"
      using fifth_bounds_rat(2)[of n] by (simp add: d)
    show "4 * of_nat n / (5::rat) < of_int (int (n - (n + 4) div 5)) + 1"
      using fifth_bounds_rat(1)[of n] by (simp add: d)
  qed
  then show ?thesis
    by simp
qed

lemma validate_shuffle_split_eq:
  assumes "n < 2 ^ 50"
  shows "validate_shuffle_split n =
     (if n < 2 then Inl ValueError else Inr (n - (n + 4) div 5, (n + 4) div 5))"
proof -
  have "n - (n + 4) div 5 = 0 \<longleftrightarrow> n < 2"
    using fifth_bounds[of n] by linarith
  then show ?thesis
    by (simp add: validate_shuffle_split_def n_test_eq[OF assms] Let_def)
qed

lemma shuffle_split_partition:
  assumes "mset (fst (permutation R s n)) = mset [0..<n]" "n_train + n_test = n"
  shows "length (fst (fst (shuffle_split R s n n_train n_test))) = n_train"
    and "length (snd (fst (shuffle_split R s n n_train n_test))) = n_test"
    and "mset (fst (fst (shuffle_split R s n n_train n_test)) @
               snd (fst (shuffle_split R s n n_train n_test))) = mset [0..<n]"
proof -
  define perm where "perm = fst (permutation R s n)"
  have "size (mset perm) = size (mset [0..<n])"
    using assms(1) by (simp only: perm_def)
  then have len: "length perm = n"
    by simp
  have a: "take n_train (drop n_test perm) = drop n_test perm"
    using len assms(2) by simp
  have "mset (take n_test perm) + mset (drop n_test perm) = mset perm"
    by (metis append_take_drop_id mset_append)
  then have "mset (drop n_test perm @ take n_test perm) = mset perm"
    by (simp add: union_commute)
  moreover have "mset perm = mset [0..<n]"
    using assms(1) by (simp only: perm_def)
  ultimately have m: "mset (take n_train (drop n_test perm) @ take n_test perm) = mset [0..<n]"
    by (simp only: a)
  have f: "fst (shuffle_split R s n n_train n_test) =
      (take n_train (drop n_test perm), take n_test perm)"
    by (simp add: shuffle_split_def perm_def split_beta)
  show "length (fst (fst (shuffle_split R s n n_train n_test))) = n_train"
    using len assms(2) by (simp add: f)
  show "length (snd (fst (shuffle_split R s n n_train n_test))) = n_test"
    using len assms(2) by (simp add: f)
  show "mset (fst (fst (shuffle_split R s n n_train n_test)) @
               snd (fst (shuffle_split R s n n_train n_test))) = mset [0..<n]"
    using m by (simp only: f fst_conv snd_conv)
qed

lemma mset_indexed:
  assumes "mset is = mset [0..<length xs]"
  shows "mset (map ((!) xs) is) = mset xs"
proof -
  have "mset (map ((!) xs) is) = image_mset ((!) xs) (mset is)"
    by simp
  also have "\<dots> = mset (map ((!) xs) [0..<length xs])"
    by (simp add: assms)
  finally show ?thesis
    by (simp add: map_nth)
qed

lemma zip_indexed:
  assumes "set is \<subseteq> {0..<length X}" "length X = length y"
  shows "zip (map ((!) X) is) (map ((!) y) is) = map ((!) (zip X y)) is"
  using assms by (induction "is") simp_all

section \<open>Splitter: properties\<close>

lemma split_cell_result:
  assumes "length X = length y" "2 \<le> length X" "length X < 2 ^ 50" "rng_ok R"
  shows "\<exists>train test.
           split_cell R g X y =
             Inr ((map ((!) X) train, map ((!) X) test,
                   map ((!) y) train, map ((!) y) test), g) \<and>
           length train = length X - (length X + 4) div 5 \<and>
           length test = (length X + 4) div 5 \<and>
           mset (train @ test) = mset [0..<length X]"
proof -
  define n where "n = length X"
  define n_test where "n_test = (n + 4) div 5"
  define n_train where "n_train = n - n_test"
  have sum: "n_train + n_test = n"
    unfolding n_train_def n_test_def using fifth_le[of n] by simp
  have v: "validate_shuffle_split n = Inr (n_train, n_test)"
    using assms(2,3) by (simp add: validate_shuffle_split_eq n_def n_train_def n_test_def)
  have pm: "mset (fst (permutation R (seeded R 42) n)) = mset [0..<n]"
    using assms(4) by (simp add: rng_ok_def)
  define train where "train = fst (fst (shuffle_split R (seeded R 42) n n_train n_test))"
  define test where "test = snd (fst (shuffle_split R (seeded R 42) n n_train n_test))"
  have tt: "fst (shuffle_split R (seeded R 42) n n_train n_test) = (train, test)"
      "length train = n_train" "length test = n_test" "mset (train @ test) = mset [0..<n]"
    using shuffle_split_partition[OF pm sum] by (simp_all add: train_def test_def)
  have run: "split_cell R g X y =
      Inr ((map ((!) X) train, map ((!) X) test, map ((!) y) train, map ((!) y) test), g)"
    by (simp add: split_cell_def train_test_split_def assms(1)[symmetric]
        v[unfolded n_def] tt(1)[unfolded n_def] split_beta)
  show ?thesis
    using run tt(2,3,4)
    unfolding n_train_def n_test_def n_def
    by (intro exI[of _ train] exI[of _ test] conjI)
qed

lemma indexed_subset:
  assumes "mset (train @ test) = mset [0..<n]"
  shows "set train \<subseteq> {0..<n}" "set test \<subseteq> {0..<n}"
proof -
  have "set (train @ test) = {0..<n}"
    using assms by (metis mset_eq_setD set_upt)
  then show "set train \<subseteq> {0..<n}" "set test \<subseteq> {0..<n}"
    by auto
qed

text \<open>
  Claim C1, as amended. For \<open>N\<close> labelled examples, \<open>2 \<le> N < 2^50\<close>, and a generator whose
  \<^verbatim>\<open>permutation\<close> returns permutations, the split cell returns the examples at the indices
  \<open>train\<close> and \<open>test\<close>, images and labels by the same indices, where \<open>test\<close> has
  \<open>\<lceil>0.2 N\<rceil>\<close> indices and \<open>train\<close> the remaining \<open>N - \<lceil>0.2 N\<rceil> = \<lfloor>0.8 N\<rfloor>\<close>; no index is in
  both, none is repeated, together they are \<open>0, \<dots>, N - 1\<close>, and so every example is in
  exactly one of the two subsets. For \<open>N < 2\<close> the cell raises ValueError, the training
  set being empty. The process-wide generator is left as it was.
\<close>

theorem split_sizes_and_partition:
  assumes "length X = length y" "length X < 2 ^ 50" "rng_ok R"
  shows "(length X < 2 \<longrightarrow> split_cell R g X y = Inl ValueError) \<and>
         (2 \<le> length X \<longrightarrow>
            (\<exists>train test.
               split_cell R g X y =
                 Inr ((map ((!) X) train, map ((!) X) test,
                       map ((!) y) train, map ((!) y) test), g) \<and>
               length test = nat \<lceil>of_nat (length X) / (5::rat)\<rceil> \<and>
               length train = length X - length test \<and>
               length train = nat \<lfloor>4 * of_nat (length X) / (5::rat)\<rfloor> \<and>
               set train \<inter> set test = {} \<and> distinct train \<and> distinct test \<and>
               set train \<union> set test = {0..<length X} \<and>
               mset (zip (map ((!) X) train) (map ((!) y) train)) +
               mset (zip (map ((!) X) test) (map ((!) y) test)) = mset (zip X y)))"
proof (intro conjI impI)
  assume "length X < 2"
  then show "split_cell R g X y = Inl ValueError"
    by (simp add: split_cell_def train_test_split_def assms(1)[symmetric]
        validate_shuffle_split_eq[OF assms(2)])
next
  assume two: "2 \<le> length X"
  obtain train test where
    run: "split_cell R g X y =
      Inr ((map ((!) X) train, map ((!) X) test, map ((!) y) train, map ((!) y) test), g)"
    and ltr: "length train = length X - (length X + 4) div 5"
    and lte: "length test = (length X + 4) div 5"
    and perm: "mset (train @ test) = mset [0..<length X]"
    using split_cell_result[OF assms(1) two assms(2,3), of g] by blast
  have d: "distinct (train @ test)"
    using perm by (metis distinct_upt mset_eq_imp_distinct_iff)
  have st: "set (train @ test) = {0..<length X}"
    using perm by (metis mset_eq_setD set_upt)
  have sub: "set train \<subseteq> {0..<length X}" "set test \<subseteq> {0..<length X}"
    using perm by (rule indexed_subset)+
  have zt: "zip (map ((!) X) train) (map ((!) y) train) = map ((!) (zip X y)) train"
    using sub(1) assms(1) by (rule zip_indexed)
  have ze: "zip (map ((!) X) test) (map ((!) y) test) = map ((!) (zip X y)) test"
    using sub(2) assms(1) by (rule zip_indexed)
  have "mset (train @ test) = mset [0..<length (zip X y)]"
    using perm assms(1) by simp
  then have "mset (map ((!) (zip X y)) (train @ test)) = mset (zip X y)"
    by (rule mset_indexed)
  then have "mset (map ((!) (zip X y)) train) + mset (map ((!) (zip X y)) test) =
      mset (zip X y)"
    by simp
  then have m: "mset (zip (map ((!) X) train) (map ((!) y) train)) +
      mset (zip (map ((!) X) test) (map ((!) y) test)) = mset (zip X y)"
    by (simp only: zt ze)
  have "length test = nat \<lceil>of_nat (length X) / (5::rat)\<rceil>"
    by (simp add: ceiling_fifth lte)
  moreover have "length train = length X - length test"
    by (simp add: ltr lte)
  moreover have "length train = nat \<lfloor>4 * of_nat (length X) / (5::rat)\<rfloor>"
    by (simp add: floor_four_fifths ltr)
  moreover have "set train \<inter> set test = {}" "distinct train" "distinct test"
    using d by simp_all
  moreover have "set train \<union> set test = {0..<length X}"
    using st by simp
  ultimately show "\<exists>train test.
               split_cell R g X y =
                 Inr ((map ((!) X) train, map ((!) X) test,
                       map ((!) y) train, map ((!) y) test), g) \<and>
               length test = nat \<lceil>of_nat (length X) / (5::rat)\<rceil> \<and>
               length train = length X - length test \<and>
               length train = nat \<lfloor>4 * of_nat (length X) / (5::rat)\<rfloor> \<and>
               set train \<inter> set test = {} \<and> distinct train \<and> distinct test \<and>
               set train \<union> set test = {0..<length X} \<and>
               mset (zip (map ((!) X) train) (map ((!) y) train)) +
               mset (zip (map ((!) X) test) (map ((!) y) test)) = mset (zip X y)"
    using run m by blast
qed

lemma mset_rotate_list: "mset (rotate k xs) = mset xs"
proof -
  have "mset (take (k mod length xs) xs) + mset (drop (k mod length xs) xs) = mset xs"
    by (metis append_take_drop_id mset_append)
  then show ?thesis
    by (simp add: rotate_drop_take union_commute)
qed

lemma toy_rng_ok: "rng_ok toy_rng"
  unfolding rng_ok_def toy_rng_def by (simp only: rng.simps fst_conv mset_rotate_list) simp

lemma toy_split:
  "split_cell toy_rng 0 [10, 11, 12, 13, 14, 15 :: nat] [7, 2, 4, 0, 9, 5 :: nat] =
     Inr (([12, 13, 14, 15], [10, 11], [4, 0, 9, 5], [7, 2]), 0)"
  by code_simp

text \<open>
  Claim C1 as stated gives the training subset \<open>\<lceil>0.8 N\<rceil>\<close> examples. Of six examples the
  split keeps four for training and two for validation, and \<open>\<lceil>0.8 \<cdot> 6\<rceil> = 5\<close>.
\<close>

theorem training_size_is_not_ceiling:
  "split_cell toy_rng 0 [10, 11, 12, 13, 14, 15 :: nat] [7, 2, 4, 0, 9, 5 :: nat] =
     Inr (([12, 13, 14, 15], [10, 11], [4, 0, 9, 5], [7, 2]), 0) \<and>
   length [12, 13, 14, 15 :: nat] \<noteq>
     nat \<lceil>(8 / 10 :: rat) * of_nat (length [10, 11, 12, 13, 14, 15 :: nat])\<rceil>"
  by code_simp

text \<open>The amended claim on the same six examples.\<close>

theorem split_sizes_and_partition_witness:
  "length [10, 11, 12, 13, 14, 15 :: nat] = length [7, 2, 4, 0, 9, 5 :: nat] \<and>
   length [10, 11, 12, 13, 14, 15 :: nat] < 2 ^ 50 \<and> rng_ok toy_rng \<and>
   2 \<le> length [10, 11, 12, 13, 14, 15 :: nat] \<and>
   (\<exists>train test.
      split_cell toy_rng 0 [10, 11, 12, 13, 14, 15 :: nat] [7, 2, 4, 0, 9, 5 :: nat] =
        Inr ((map ((!) [10, 11, 12, 13, 14, 15]) train, map ((!) [10, 11, 12, 13, 14, 15]) test,
              map ((!) [7, 2, 4, 0, 9, 5]) train, map ((!) [7, 2, 4, 0, 9, 5]) test), 0) \<and>
      length test = 2 \<and> length train = 4 \<and>
      set train \<inter> set test = {} \<and> set train \<union> set test = {0..<6})"
proof -
  have h1: "length [10, 11, 12, 13, 14, 15 :: nat] = length [7, 2, 4, 0, 9, 5 :: nat]"
    by simp
  have h2: "length [10, 11, 12, 13, 14, 15 :: nat] < 2 ^ 50"
    by simp
  have h4: "2 \<le> length [10, 11, 12, 13, 14, 15 :: nat]"
    by simp
  obtain train test where r:
    "split_cell toy_rng 0 [10, 11, 12, 13, 14, 15 :: nat] [7, 2, 4, 0, 9, 5 :: nat] =
        Inr ((map ((!) [10, 11, 12, 13, 14, 15]) train, map ((!) [10, 11, 12, 13, 14, 15]) test,
              map ((!) [7, 2, 4, 0, 9, 5]) train, map ((!) [7, 2, 4, 0, 9, 5]) test), 0)"
    "length test = nat \<lceil>of_nat (length [10, 11, 12, 13, 14, 15 :: nat]) / (5::rat)\<rceil>"
    "length train = length [10, 11, 12, 13, 14, 15 :: nat] - length test"
    "set train \<inter> set test = {}"
    "set train \<union> set test = {0..<length [10, 11, 12, 13, 14, 15 :: nat]}"
    using split_sizes_and_partition[OF h1 h2 toy_rng_ok, of 0] h4 by blast
  have te: "length test = 2"
    unfolding r(2) ceiling_fifth by simp
  have tr: "length train = 4"
    unfolding r(3) te by simp
  have six: "length [10, 11, 12, 13, 14, 15 :: nat] = 6"
    by simp
  have un: "set train \<union> set test = {0..<6}"
    using r(5) unfolding six .
  show ?thesis
    using h1 h2 toy_rng_ok h4 r(1,4) te tr un by blast
qed

text \<open>
  Claim C2. The split is a function of the seed and of the input in its order: whatever
  state the process-wide generator is in, the cell returns the same partitions (or the
  same error), and it leaves that state unchanged, so a second run after the first
  returns the same partitions again.
\<close>

theorem split_is_reproducible:
  "map_sum id fst (split_cell R g X y) = map_sum id fst (split_cell R g' X y) \<and>
   (\<forall>parts g1. split_cell R g X y = Inr (parts, g1) \<longrightarrow>
      g1 = g \<and> split_cell R g1 X y = Inr (parts, g1))"
proof (cases "length X = length y")
  case False
  then show ?thesis
    by (simp add: split_cell_def train_test_split_def)
next
  case True
  show ?thesis
  proof (cases "validate_shuffle_split (length X)")
    case (Inl e)
    then show ?thesis
      using True by (simp add: split_cell_def train_test_split_def)
  next
    case (Inr sizes)
    then show ?thesis
      using True
      by (cases sizes) (simp add: split_cell_def train_test_split_def split_beta)
  qed
qed

text \<open>Without a seed this fails: \<^verbatim>\<open>random_state=None\<close> draws from the process-wide
  generator, and two states of it give two splits.\<close>

lemma unseeded_split_follows_generator:
  "map_sum id fst (train_test_split toy_rng 0 [10, 11, 12, 13, 14, 15 :: nat]
      [7, 2, 4, 0, 9, 5 :: nat] None) \<noteq>
   map_sum id fst (train_test_split toy_rng 1 [10, 11, 12, 13, 14, 15 :: nat]
      [7, 2, 4, 0, 9, 5 :: nat] None)"
  by code_simp

text \<open>Two runs on the six examples, from two states of the process-wide generator.\<close>

theorem split_is_reproducible_witness:
  "map_sum id fst (split_cell toy_rng 0 [10, 11, 12, 13, 14, 15 :: nat] [7, 2, 4, 0, 9, 5 :: nat]) =
   map_sum id fst (split_cell toy_rng 7 [10, 11, 12, 13, 14, 15 :: nat] [7, 2, 4, 0, 9, 5 :: nat]) \<and>
   split_cell toy_rng 0 [10, 11, 12, 13, 14, 15 :: nat] [7, 2, 4, 0, 9, 5 :: nat] =
     Inr (([12, 13, 14, 15], [10, 11], [4, 0, 9, 5], [7, 2]), 0)"
  using split_is_reproducible[of toy_rng 0 "[10, 11, 12, 13, 14, 15 :: nat]" "[7, 2, 4, 0, 9, 5 :: nat]" 7]
    toy_split
  by blast

section \<open>Training loop: properties\<close>

lemma length_batches: "length (batches b xs) = (length xs + b - 1) div b"
  by (simp add: batches_def)

lemma batches_Nil: "batches b [] = []"
  by (cases "b = 0") (simp_all add: batches_def)

lemma batches_step:
  assumes "0 < b" "xs \<noteq> []"
  shows "batches b xs = take b xs # batches b (drop b xs)"
proof (cases "length xs \<le> b")
  case True
  have "0 < length xs"
    using assms(2) by simp
  then have "length xs + b - 1 < b + b" "b \<le> length xs + b - 1"
    using True by linarith+
  then have "b * 1 \<le> length xs + b - 1" "length xs + b - 1 < b * Suc 1"
    by simp_all
  then have "(length xs + b - 1) div b = 1"
    by (rule div_nat_eqI)
  then have "batches b xs = [take b xs]"
    by (simp add: batches_def)
  then show ?thesis
    using True by (simp add: batches_Nil)
next
  case False
  then have "length xs + b - 1 = (length xs - b + b - 1) + b"
    by simp
  then have "(length xs + b - 1) div b = Suc ((length xs - b + b - 1) div b)"
    using assms(1) by (metis div_add_self2 Suc_eq_plus1 less_numeral_extra(3))
  then have "[0..<(length xs + b - 1) div b] = 0 # map Suc [0..<(length xs - b + b - 1) div b]"
    by (simp add: map_Suc_upt upt_conv_Cons)
  then show ?thesis
    by (simp add: batches_def comp_def add.commute)
qed

lemma mini_batches_of_batches:
  assumes "0 < b"
  shows "mini_batches_of b (length xs) (batches b xs) \<and> concat (batches b xs) = xs"
proof (induction "length xs" arbitrary: xs rule: less_induct)
  case less
  show ?case
  proof (cases "xs = []")
    case True
    then show ?thesis
      using assms by (simp add: batches_Nil mini_batches_of_def)
  next
    case False
    have step: "batches b xs = take b xs # batches b (drop b xs)"
      using assms False by (rule batches_step)
    have "length (drop b xs) < length xs"
      using assms False by simp
    then have ih: "mini_batches_of b (length (drop b xs)) (batches b (drop b xs))"
        "concat (batches b (drop b xs)) = drop b xs"
      using less by blast+
    have cat: "concat (batches b xs) = xs"
      by (simp add: step ih(2))
    have n: "length (batches b xs) = (length xs + b - 1) div b"
      by (rule length_batches)
    have all: "list_all (\<lambda>c. 0 < length c \<and> length c \<le> b) (batches b xs)"
      using ih(1) assms False by (simp add: step mini_batches_of_def)
    have but: "list_all (\<lambda>c. length c = b) (butlast (batches b xs))"
    proof (cases "batches b (drop b xs) = []")
      case True
      then show ?thesis by (simp add: step)
    next
      case nonempty: False
      then have "drop b xs \<noteq> []"
        by (auto simp: batches_Nil)
      then have "b < length xs"
        by simp
      then show ?thesis
        using ih(1) nonempty by (simp add: step mini_batches_of_def)
    qed
    show ?thesis
      using n all but cat by (simp add: mini_batches_of_def)
  qed
qed

lemma batches_64:
  "mini_batches_of 64 (length xs) (batches 64 xs)" "concat (batches 64 xs) = xs"
  using mini_batches_of_batches[of 64 xs] by simp_all




lemma weights_after_Cons:
  "weights_after step w (b # bs) = weights_after step (fst (step w b)) bs"
  by (simp add: weights_after_def)

lemma batch_metrics_Cons:
  "batch_metrics step w (b # bs) = snd (step w b) # batch_metrics step (fst (step w b)) bs"
proof -
  have "[0..<Suc (length bs)] = 0 # map Suc [0..<length bs]"
    by (simp only: map_Suc_upt upt_conv_Cons[OF zero_less_Suc])
  then show ?thesis
    by (simp add: batch_metrics_def weights_after_def comp_def del: upt_Suc)
qed

lemma run_batches_eq:
  "run_batches step w bs = (weights_after step w bs, batch_metrics step w bs)"
proof (induction bs arbitrary: w)
  case Nil
  then show ?case
    by (simp add: weights_after_def batch_metrics_def)
next
  case (Cons b bs)
  show ?case
    by (simp add: Cons split_beta weights_after_Cons batch_metrics_Cons)
qed

lemma training_trace_Nil: "training_trace N [] val [w] []"
  by (simp add: training_trace_def)

lemma training_trace_Cons:
  assumes "training_trace N Bs val ws h" "ws ! 0 = weights_after (train_step N) w B"
    "train_report entry = mean_of N (batch_metrics (train_step N) w B)"
    "val_report entry = test_step N (ws ! 0) val"
  shows "training_trace N (B # Bs) val (w # ws) (entry # h)"
proof -
  have l: "length ws = Suc (length Bs)" "length h = length Bs"
    using assms(1) by (simp_all add: training_trace_def)
  have r: "ws ! Suc e = weights_after (train_step N) (ws ! e) (Bs ! e) \<and>
         train_report (h ! e) =
           mean_of N (batch_metrics (train_step N) (ws ! e) (Bs ! e)) \<and>
         val_report (h ! e) = test_step N (ws ! Suc e) val" if "e < length Bs" for e
    using assms(1) that by (simp add: training_trace_def list_all_iff)
  have "(w # ws) ! Suc e = weights_after (train_step N) ((w # ws) ! e) ((B # Bs) ! e) \<and>
         train_report ((entry # h) ! e) =
           mean_of N (batch_metrics (train_step N) ((w # ws) ! e) ((B # Bs) ! e)) \<and>
         val_report ((entry # h) ! e) = test_step N ((w # ws) ! Suc e) val"
    if "e < Suc (length Bs)" for e
  proof (cases e)
    case 0
    then show ?thesis
      using assms(2,3,4) by simp
  next
    case (Suc k)
    then have "k < length Bs"
      using that by simp
    then show ?thesis
      using r[of k] Suc by simp
  qed
  then show ?thesis
    using l by (simp add: training_trace_def list_all_iff)
qed

lemma training_trace_nth:
  assumes "training_trace N Bs val ws h" "e < length Bs"
  shows "ws ! Suc e = weights_after (train_step N) (ws ! e) (Bs ! e)"
    "train_report (h ! e) = mean_of N (batch_metrics (train_step N) (ws ! e) (Bs ! e))"
    "val_report (h ! e) = test_step N (ws ! Suc e) val"
  using assms by (simp_all add: training_trace_def list_all_iff)

lemma fit_length: "length (fst (fit N src val e w s)) = e"
  by (induction e arbitrary: w s) (simp_all add: split_beta Let_def)

lemma fit_trace:
  assumes "I s" "\<And>s. I s \<Longrightarrow> P (fst (src s)) \<and> I (snd (src s))"
  shows "\<exists>Bs ws. length Bs = e \<and> list_all P Bs \<and>
           training_trace N Bs val ws (fst (fit N src val e w s)) \<and>
           ws ! 0 = w \<and> ws ! e = fst (snd (fit N src val e w s))"
  using assms(1)
proof (induction e arbitrary: w s)
  case 0
  show ?case
    by (intro exI[of _ "[]"] exI[of _ "[w]"]) (simp add: training_trace_Nil)
next
  case (Suc e)
  define bs where "bs = fst (src s)"
  define s1 where "s1 = snd (src s)"
  define w1 where "w1 = weights_after (train_step N) w bs"
  define entry where "entry = \<lparr>train_report = mean_of N (batch_metrics (train_step N) w bs),
      val_report = test_step N w1 val\<rparr>"
  have step: "P bs" "I s1"
    using assms(2)[OF Suc.prems] by (simp_all add: bs_def s1_def)
  obtain Bs ws where ih: "length Bs = e" "list_all P Bs"
      "training_trace N Bs val ws (fst (fit N src val e w1 s1))"
      "ws ! 0 = w1" "ws ! e = fst (snd (fit N src val e w1 s1))"
    using Suc.IH[OF step(2), of w1] by blast
  have unfold: "fit N src val (Suc e) w s =
      (entry # fst (fit N src val e w1 s1), snd (fit N src val e w1 s1))"
    by (simp add: split_beta Let_def run_batches_eq bs_def s1_def w1_def entry_def)
  have tr: "training_trace N (bs # Bs) val (w # ws) (entry # fst (fit N src val e w1 s1))"
    using ih(3)
  proof (rule training_trace_Cons)
    show "ws ! 0 = weights_after (train_step N) w bs"
      by (simp add: ih(4) w1_def)
    show "train_report entry = mean_of N (batch_metrics (train_step N) w bs)"
      by (simp add: entry_def)
    show "val_report entry = test_step N (ws ! 0) val"
      by (simp add: entry_def ih(4))
  qed
  show ?case
    by (intro exI[of _ "bs # Bs"] exI[of _ "w # ws"])
      (simp add: unfold ih(1,2,5) step(1) tr del: fit.simps)
qed



lemma transform_samples_rel:
  "list_all2 (\<lambda>x' x. \<exists>g'. x' = fst (t g' x)) (fst (transform_samples t g xs)) xs"
proof (induction xs arbitrary: g)
  case Nil
  show ?case by simp
next
  case (Cons x xs)
  have "\<exists>g'. fst (t g x) = fst (t g' x)"
    by blast
  then show ?case
    using Cons[of "snd (t g x)"] by (simp add: split_beta)
qed

lemma flow_item_rel:
  "list_all2 (\<lambda>s j. (\<exists>g'. fst s = fst (t g' (X ! j))) \<and> snd s = y ! j)
     (fst (flow_item t X y b index_array idx g)) (take b (drop (idx * b) index_array))"
proof -
  define js where "js = take b (drop (idx * b) index_array)"
  define xs where "xs = fst (transform_samples t g (map ((!) X) js))"
  have run: "fst (flow_item t X y b index_array idx g) = zip xs (map ((!) y) js)"
    by (simp add: flow_item_def split_beta Let_def js_def xs_def)
  have rel: "list_all2 (\<lambda>x' x. \<exists>g'. x' = fst (t g' x)) xs (map ((!) X) js)"
    unfolding xs_def by (rule transform_samples_rel)
  then have len: "length xs = length js"
    by (simp add: list_all2_conv_all_nth)
  have each: "\<exists>g'. xs ! i = fst (t g' (X ! (js ! i)))" if "i < length js" for i
    using rel that by (auto simp: list_all2_conv_all_nth)
  have "list_all2 (\<lambda>s j. (\<exists>g'. fst s = fst (t g' (X ! j))) \<and> snd s = y ! j)
      (zip xs (map ((!) y) js)) js"
    using each by (simp add: list_all2_conv_all_nth len)
  then show ?thesis
    by (simp only: run js_def)
qed

lemma get_items_rel:
  assumes "\<And>i g. Q (fst (item i g)) (f i)"
  shows "list_all2 Q (fst (get_items item order g)) (map f order)"
proof (induction order arbitrary: g)
  case Nil
  show ?case by simp
next
  case (Cons i order)
  show ?case
    using assms[of i g] Cons[of "snd (item i g)"] by (simp add: split_beta)
qed

lemma list_all2_concat:
  assumes "list_all2 (list_all2 Q) xss yss"
  shows "list_all2 Q (concat xss) (concat yss)"
  using assms by (induction rule: list_all2_induct) (simp_all add: list_all2_appendI)

lemma list_all2_lengths:
  assumes "list_all2 (list_all2 Q) xss yss"
  shows "map length xss = map length yss"
  using assms by (induction rule: list_all2_induct) (simp_all add: list_all2_lengthD)

lemma mset_concat_cong:
  assumes "mset xss = mset yss"
  shows "mset (concat xss) = mset (concat yss)"
proof -
  have "mset (concat zs) = \<Sum>\<^sub># (image_mset mset (mset zs))" for zs :: "'a list list"
    by (simp add: mset_concat flip: sum_mset_sum_list)
  then show ?thesis
    by (simp add: assms)
qed

lemma nth_batches:
  assumes "k < (length xs + b - 1) div b"
  shows "batches b xs ! k = take b (drop (k * b) xs)"
  using assms by (simp add: batches_def)

lemma any_order_of_permuted:
  assumes "mini_batches_of b n cs" "mset (map length bs) = mset (map length cs)"
  shows "mini_batches_any_order b n bs"
proof -
  have l: "length bs = length cs"
    using mset_eq_length[OF assms(2)] by simp
  have "sum_list (map length bs) = sum_list (map length cs)"
    using assms(2) by (metis sum_mset_sum_list)
  then have c: "length (concat bs) = length (concat cs)"
    by (simp add: length_concat)
  have "set (map length bs) = set (map length cs)"
    using assms(2) by (rule mset_eq_setD)
  moreover have "\<forall>k \<in> set (map length cs). 0 < k \<and> k \<le> b"
    using assms(1) by (simp add: mini_batches_of_def list_all_iff)
  ultimately have "\<forall>k \<in> set (map length bs). 0 < k \<and> k \<le> b"
    by simp
  then have a: "list_all (\<lambda>c. 0 < length c \<and> length c \<le> b) bs"
    by (simp add: list_all_iff)
  have count: "length (filter (\<lambda>c. length c \<noteq> b) zs) =
      size (filter_mset (\<lambda>k. k \<noteq> b) (mset (map length zs)))" for zs :: "'c list list"
  proof -
    have "size (filter_mset (\<lambda>k. k \<noteq> b) (mset (map length zs))) =
        size (mset (filter (\<lambda>k. k \<noteq> b) (map length zs)))"
      by (simp only: mset_filter)
    also have "\<dots> = length (filter (\<lambda>k. k \<noteq> b) (map length zs))"
      by (simp only: size_mset)
    also have "\<dots> = length (filter (\<lambda>c. length c \<noteq> b) zs)"
      by (simp add: comp_def)
    finally show ?thesis
      by simp
  qed
  have "length (filter (\<lambda>c. length c \<noteq> b) cs) \<le> 1"
  proof (cases "cs = []")
    case True
    then show ?thesis by simp
  next
    case False
    then have "cs = butlast cs @ [last cs]"
      by simp
    then have "filter (\<lambda>c. length c \<noteq> b) cs =
        filter (\<lambda>c. length c \<noteq> b) (butlast cs) @ filter (\<lambda>c. length c \<noteq> b) [last cs]"
      by (metis filter_append)
    moreover have "filter (\<lambda>c. length c \<noteq> b) (butlast cs) = []"
      using assms(1) by (simp add: mini_batches_of_def list_all_iff filter_empty_conv)
    ultimately show ?thesis
      by simp
  qed
  then have f: "length (filter (\<lambda>c. length c \<noteq> b) bs) \<le> 1"
    by (simp only: count[of bs] count[of cs] assms(2))
  show ?thesis
    using assms(1) l c f a by (simp add: mini_batches_any_order_def mini_batches_of_def)
qed

lemma flow_epoch_pass:
  assumes "rng_ok R" "mset index_array = mset [0..<length X]"
  shows "mini_batches_any_order 64 (length X)
           (fst (flow_epoch R t X y 64 (index_array, g))) \<and>
         (\<exists>js. mset js = mset [0..<length X] \<and>
            list_all2 (\<lambda>s j. (\<exists>g'. fst s = fst (t g' (X ! j))) \<and> snd s = y ! j)
              (concat (fst (flow_epoch R t X y 64 (index_array, g)))) js) \<and>
         mset (fst (snd (flow_epoch R t X y 64 (index_array, g)))) = mset [0..<length X]"
proof -
  define n where "n = length X"
  define nb where "nb = (n + 64 - 1) div 64"
  define order where "order = fst (permutation R g nb)"
  define g1 where "g1 = snd (permutation R g nb)"
  define f where "f = (\<lambda>idx. take 64 (drop (idx * 64) index_array))"
  define bs where "bs = fst (get_items (flow_item t X y 64 index_array) order g1)"
  define g2 where "g2 = snd (get_items (flow_item t X y 64 index_array) order g1)"
  define cs where "cs = batches 64 index_array"
  have run: "flow_epoch R t X y 64 (index_array, g) =
      (bs, (fst (permutation R g2 n), snd (permutation R g2 n)))"
    by (simp add: flow_epoch_def split_beta Let_def n_def nb_def order_def g1_def bs_def g2_def)
  have len: "length index_array = n"
    using mset_eq_length[OF assms(2)] by (simp add: n_def)
  have o: "mset order = mset [0..<nb]"
    using assms(1) by (simp add: order_def rng_ok_def)
  have csl: "length cs = nb"
    by (simp add: cs_def length_batches len nb_def)
  have csm: "mini_batches_of 64 n cs" "concat cs = index_array"
    using batches_64[of index_array] by (simp_all add: cs_def len)
  have "set order = {0..<nb}"
    using o by (metis mset_eq_setD set_upt)
  then have "f idx = cs ! idx" if "idx \<in> set order" for idx
    using that by (simp add: f_def cs_def nth_batches len nb_def)
  then have jss: "map f order = map ((!) cs) order"
    by simp
  have perm: "mset (map ((!) cs) order) = mset cs"
    using o by (intro mset_indexed) (simp add: csl)
  have rel: "list_all2 (list_all2 (\<lambda>s j. (\<exists>g'. fst s = fst (t g' (X ! j))) \<and> snd s = y ! j))
      bs (map f order)"
    unfolding bs_def f_def by (rule get_items_rel) (rule flow_item_rel)
  have "map length bs = map length (map ((!) cs) order)"
    using list_all2_lengths[OF rel] by (simp only: jss)
  then have "mset (map length bs) = mset (map length (map ((!) cs) order))"
    by (simp only:)
  also have "\<dots> = image_mset length (mset (map ((!) cs) order))"
    by (simp only: mset_map)
  also have "\<dots> = image_mset length (mset cs)"
    by (simp only: perm)
  also have "\<dots> = mset (map length cs)"
    by (simp only: mset_map)
  finally have "mset (map length bs) = mset (map length cs)" .
  then have sizes: "mini_batches_any_order 64 n bs"
    using csm(1) by (intro any_order_of_permuted)
  have "mset (concat (map f order)) = mset (concat cs)"
    unfolding jss using perm by (rule mset_concat_cong)
  then have js: "mset (concat (map f order)) = mset [0..<n]"
    by (simp add: csm(2) assms(2) n_def)
  have pairs: "list_all2 (\<lambda>s j. (\<exists>g'. fst s = fst (t g' (X ! j))) \<and> snd s = y ! j)
      (concat bs) (concat (map f order))"
    using rel by (rule list_all2_concat)
  have nxt: "mset (fst (permutation R g2 n)) = mset [0..<n]"
    using assms(1) by (simp add: rng_ok_def)
  have ex: "\<exists>js. mset js = mset [0..<n] \<and>
            list_all2 (\<lambda>s j. (\<exists>g'. fst s = fst (t g' (X ! j))) \<and> snd s = y ! j) (concat bs) js"
    using js pairs by (intro exI[of _ "concat (map f order)"] conjI)
  show ?thesis
    unfolding run n_def[symmetric] using sizes ex nxt by simp
qed

lemma flow_first_item_index:
  assumes "rng_ok R"
  shows "mset (fst (flow_first_item R t X y b g)) = mset [0..<length X]"
  using assms by (simp add: flow_first_item_def split_beta Let_def rng_ok_def)


lemma prepare_tables:
  assumes "well_formed_train train_df" "well_formed_test test_df"
  shows "\<exists>images labels test.
           prepare train_df test_df = Inr (images, labels, test) \<and>
           train_images train_df = Inr images \<and> train_labels train_df = Inr labels \<and>
           test_images test_df = Inr test \<and> test \<noteq> [] \<and>
           length images = length (df_values train_df) \<and>
           length labels = length (df_values train_df) \<and>
           list_all (\<lambda>v. 0 \<le> v \<and> v \<le> 9) labels"
proof -
  define labels where "labels = map (\<lambda>r. r ! 0) (df_values train_df)"
  have l: "train_labels train_df = Inr labels"
    using assms(1) by (simp add: train_labels_def iloc_col_def well_formed_train_def labels_def)
  have "list_all (\<lambda>r. length r = 784) (iloc_from 1 train_df)"
    using assms(1) by (simp add: well_formed_train_def iloc_from_def list_all_iff)
  then have "load_images (iloc_from 1 train_df) =
      Inr (map (\<lambda>r. map (map (map normalise)) (to_image r)) (iloc_from 1 train_df))"
    by (rule load_images_rows)
  then obtain images where i: "train_images train_df = Inr images"
      "length images = length (df_values train_df)"
    by (simp add: train_images_def iloc_from_def)
  have "list_all (\<lambda>r. length r = 784) (df_values test_df)"
    using assms(2) by (simp add: well_formed_test_def)
  then have "load_images (df_values test_df) =
      Inr (map (\<lambda>r. map (map (map normalise)) (to_image r)) (df_values test_df))"
    by (rule load_images_rows)
  moreover have "df_values test_df \<noteq> []"
    using assms(2) by (simp add: well_formed_test_def)
  ultimately obtain test where t: "test_images test_df = Inr test" "test \<noteq> []"
    by (simp add: test_images_def)
  have p: "prepare train_df test_df = Inr (images, labels, test)"
    by (simp add: prepare_def l i(1) t(1))
  have ll: "length labels = length (df_values train_df)"
    by (simp add: labels_def)
  have d: "list_all (\<lambda>v. 0 \<le> v \<and> v \<le> 9) labels"
    using assms(1) by (simp add: well_formed_train_def labels_def list_all_iff)
  show ?thesis
    by (intro exI[of _ images] exI[of _ labels] exI[of _ test] conjI) (fact p i l t ll d)+
qed

lemma submission_from_runs:
  assumes "\<And>img. f img \<noteq> []" "imgs \<noteq> []"
  shows "\<exists>df. submission_from f imgs = Inr df"
proof -
  have "list_all (\<lambda>v. v \<noteq> []) (map f imgs)"
    using assms(1) by (simp add: list_all_iff)
  then obtain ks where "argmax_axis1 (map f imgs) = Inr ks"
    using argmax_axis1_spec by blast
  then show ?thesis
    using assms(2) by (simp add: submission_from_def predict_def submission_of_eq)
qed

lemma submission_from_empty: "submission_from f [] = Inl ValueError"
  by (simp add: submission_from_def predict_def)


lemma notebook_2_run:
  assumes "well_formed_train train_df" "well_formed_test test_df" "rng_ok R"
    "\<And>w img. forward (K compile_2) w img \<noteq> []"
  shows "\<exists>r images labels test X_train X_val y_train y_val Bs ws.
           prepare train_df test_df = Inr (images, labels, test) \<and>
           train_images train_df = Inr images \<and> train_labels train_df = Inr labels \<and>
           test_images test_df = Inr test \<and>
           split_cell R g images labels = Inr ((X_train, X_val, y_train, y_val), g) \<and>
           length X_train =
             length (df_values train_df) - (length (df_values train_df) + 4) div 5 \<and>
           notebook_2 R K A w0 g train_df test_df = Inr r \<and>
           length (history r) = 10 \<and> length Bs = 10 \<and>
           list_all (\<lambda>bs. mini_batches_any_order 64 (length X_train) bs \<and>
              (\<exists>js. mset js = mset [0..<length X_train] \<and>
                 list_all2 (\<lambda>s j. (\<exists>g'. fst s = fst (A datagen g' (X_train ! j))) \<and>
                                   snd s = y_train ! j) (concat bs) js)) Bs \<and>
           training_trace (K compile_2) Bs (zip X_val y_val) ws (history r) \<and>
           ws ! 0 = w0 \<and> ws ! 10 = trained_weights r \<and>
           submission_from (forward (K compile_2) (trained_weights r)) test = Inr (submission r)"
proof -
  define n where "n = length (df_values train_df)"
  obtain images labels test where p: "prepare train_df test_df = Inr (images, labels, test)"
      "train_images train_df = Inr images" "train_labels train_df = Inr labels"
      "test_images test_df = Inr test"
      "test \<noteq> []" "length images = n" "length labels = n"
    using prepare_tables[OF assms(1,2)] unfolding n_def by blast
  have n: "2 \<le> length images" "length images < 2 ^ 50" "length images = length labels"
    using assms(1) by (simp_all add: p(6,7) n_def well_formed_train_def)
  obtain train val where s: "split_cell R g images labels =
             Inr ((map ((!) images) train, map ((!) images) val,
                   map ((!) labels) train, map ((!) labels) val), g)"
      "length train = length images - (length images + 4) div 5"
    using split_cell_result[OF n(3,1,2) assms(3), of g] by blast
  define X_train where "X_train = map ((!) images) train"
  define X_val where "X_val = map ((!) images) val"
  define y_train where "y_train = map ((!) labels) train"
  define y_val where "y_val = map ((!) labels) val"
  define s0 where "s0 = flow_first_item R (A datagen) X_train y_train 64 g"
  define run where "run = fit (K compile_2) (flow_epoch R (A datagen) X_train y_train 64)
      (zip X_val y_val) 10 w0 s0"
  have sp: "split_cell R g images labels = Inr ((X_train, X_val, y_train, y_val), g)"
    using s(1) by (simp only: X_train_def X_val_def y_train_def y_val_def)
  have len: "length X_train = n - (n + 4) div 5"
    using s(2) by (simp add: X_train_def p(6))
  have "\<exists>Bs ws. length Bs = 10 \<and>
      list_all (\<lambda>bs. mini_batches_any_order 64 (length X_train) bs \<and>
              (\<exists>js. mset js = mset [0..<length X_train] \<and>
                 list_all2 (\<lambda>s j. (\<exists>g'. fst s = fst (A datagen g' (X_train ! j))) \<and>
                                   snd s = y_train ! j) (concat bs) js)) Bs \<and>
      training_trace (K compile_2) Bs (zip X_val y_val) ws (fst run) \<and>
      ws ! 0 = w0 \<and> ws ! 10 = fst (snd run)"
    unfolding run_def
  proof (rule fit_trace[where I = "\<lambda>s. mset (fst s) = mset [0..<length X_train]"])
    show "mset (fst s0) = mset [0..<length X_train]"
      unfolding s0_def using assms(3) by (rule flow_first_item_index)
    show "(mini_batches_any_order 64 (length X_train)
             (fst (flow_epoch R (A datagen) X_train y_train 64 s)) \<and>
           (\<exists>js. mset js = mset [0..<length X_train] \<and>
              list_all2 (\<lambda>s j. (\<exists>g'. fst s = fst (A datagen g' (X_train ! j))) \<and>
                                snd s = y_train ! j)
                (concat (fst (flow_epoch R (A datagen) X_train y_train 64 s))) js)) \<and>
          mset (fst (snd (flow_epoch R (A datagen) X_train y_train 64 s))) =
            mset [0..<length X_train]"
      if "mset (fst s) = mset [0..<length X_train]" for s
      using flow_epoch_pass[OF assms(3) that, of "A datagen" y_train "snd s"] by simp
  qed
  then obtain Bs ws where tr: "length Bs = 10"
      "list_all (\<lambda>bs. mini_batches_any_order 64 (length X_train) bs \<and>
              (\<exists>js. mset js = mset [0..<length X_train] \<and>
                 list_all2 (\<lambda>s j. (\<exists>g'. fst s = fst (A datagen g' (X_train ! j))) \<and>
                                   snd s = y_train ! j) (concat bs) js)) Bs"
      "training_trace (K compile_2) Bs (zip X_val y_val) ws (fst run)"
      "ws ! 0 = w0" "ws ! 10 = fst (snd run)"
    by blast
  obtain df where df: "submission_from (forward (K compile_2) (fst (snd run))) test = Inr df"
    using submission_from_runs[of "forward (K compile_2) (fst (snd run))" test] assms(4) p(5)
    by blast
  define r where "r = \<lparr>history = fst run, trained_weights = fst (snd run), submission = df\<rparr>"
  have nb: "notebook_2 R K A w0 g train_df test_df = Inr r"
    using df by (simp add: notebook_2_def p(1) sp split_beta Let_def run_def s0_def r_def)
  have h: "length (history r) = 10"
    by (simp add: r_def run_def fit_length)
  have tr3: "training_trace (K compile_2) Bs (zip X_val y_val) ws (history r)"
    using tr(3) by (simp add: r_def)
  have tr5: "ws ! 10 = trained_weights r"
    using tr(5) by (simp add: r_def)
  have sub: "submission_from (forward (K compile_2) (trained_weights r)) test = Inr (submission r)"
    using df by (simp add: r_def)
  show ?thesis
    unfolding n_def[symmetric]
    by (rule exI[of _ r], rule exI[of _ images], rule exI[of _ labels], rule exI[of _ test],
        rule exI[of _ X_train], rule exI[of _ X_val], rule exI[of _ y_train],
        rule exI[of _ y_val], rule exI[of _ Bs], rule exI[of _ ws], intro conjI)
      (fact p(1,2,3,4) sp len nb h tr(1,2,4) tr3 tr5 sub)+
qed


text \<open>
  Claim C9. In notebook 2, whatever the random transform \<open>A\<close> and the model \<open>K\<close> are: the
  images of the training mini-batches are transforms, by \<open>A\<close>, of the training images of
  the split, each with the label of its image; the validation metrics of each of the 10
  epochs are the metrics of the weights of that epoch on the validation images and
  labels as the split returned them, that is on images as the loader produced them;
  and the submission is computed from the output of the trained model on the test
  images as the loader produced them. Since \<open>K\<close> is arbitrary, this fixes what the model
  is given: a run that evaluated or predicted on transformed images would report other
  metrics and labels for some model.
\<close>

theorem augmentation_spares_validation_and_test:
  assumes "well_formed_train train_df" "well_formed_test test_df" "rng_ok R"
    "\<And>args w img. length (forward (K args) w img) = 10"
  shows "\<exists>r images labels test X_train X_val y_train y_val Bs ws.
           train_images train_df = Inr images \<and> train_labels train_df = Inr labels \<and>
           test_images test_df = Inr test \<and>
           split_cell R g images labels = Inr ((X_train, X_val, y_train, y_val), g) \<and>
           notebook_2 R K A w0 g train_df test_df = Inr r \<and>
           length (history r) = 10 \<and> length Bs = 10 \<and>
           list_all (\<lambda>bs. \<exists>js. mset js = mset [0..<length X_train] \<and>
                 list_all2 (\<lambda>s j. (\<exists>g'. fst s = fst (A datagen g' (X_train ! j))) \<and>
                                   snd s = y_train ! j) (concat bs) js) Bs \<and>
           training_trace
             (K \<lparr>optimizer = ''adam'', loss = ''sparse_categorical_crossentropy'',
                 metrics = [''accuracy'']\<rparr>)
             Bs (zip X_val y_val) ws (history r) \<and>
           ws ! 0 = w0 \<and> ws ! 10 = trained_weights r \<and>
           (\<forall>e<10. val_report (history r ! e) =
              test_step
                (K \<lparr>optimizer = ''adam'', loss = ''sparse_categorical_crossentropy'',
                    metrics = [''accuracy'']\<rparr>)
                (ws ! Suc e) (zip X_val y_val)) \<and>
           submission_from
             (forward
                (K \<lparr>optimizer = ''adam'', loss = ''sparse_categorical_crossentropy'',
                    metrics = [''accuracy'']\<rparr>)
                (trained_weights r))
             test = Inr (submission r)"
proof -
  have f: "forward (K compile_2) w img \<noteq> []" for w img
    using assms(4)[of compile_2 w img] by auto
  obtain r images labels test X_train X_val y_train y_val Bs ws where
    b: "train_images train_df = Inr images" "train_labels train_df = Inr labels"
      "test_images test_df = Inr test"
      "split_cell R g images labels = Inr ((X_train, X_val, y_train, y_val), g)"
      "notebook_2 R K A w0 g train_df test_df = Inr r"
      "length (history r) = 10" "length Bs = 10"
      "list_all (\<lambda>bs. mini_batches_any_order 64 (length X_train) bs \<and>
              (\<exists>js. mset js = mset [0..<length X_train] \<and>
                 list_all2 (\<lambda>s j. (\<exists>g'. fst s = fst (A datagen g' (X_train ! j))) \<and>
                                   snd s = y_train ! j) (concat bs) js)) Bs"
      "training_trace (K compile_2) Bs (zip X_val y_val) ws (history r)"
      "ws ! 0 = w0" "ws ! 10 = trained_weights r"
      "submission_from (forward (K compile_2) (trained_weights r)) test = Inr (submission r)"
    using notebook_2_run[where K = K and A = A and ?w0.0 = w0 and g = g, OF assms(1,2,3) f]
    by (elim exE conjE) (rule that, assumption+)
  have tb: "list_all (\<lambda>bs. \<exists>js. mset js = mset [0..<length X_train] \<and>
                 list_all2 (\<lambda>s j. (\<exists>g'. fst s = fst (A datagen g' (X_train ! j))) \<and>
                                   snd s = y_train ! j) (concat bs) js) Bs"
    using b(8) by (simp add: list_all_iff)
  have "val_report (history r ! e) = test_step (K compile_2) (ws ! Suc e) (zip X_val y_val)"
    if "e < 10" for e
    using training_trace_nth(3)[OF b(9), of e] that b(7) by simp
  then have v: "\<forall>e<10. val_report (history r ! e) =
              test_step
                (K \<lparr>optimizer = ''adam'', loss = ''sparse_categorical_crossentropy'',
                    metrics = [''accuracy'']\<rparr>)
                (ws ! Suc e) (zip X_val y_val)"
    by (simp add: compile_2_def)
  note b9 = b(9)[unfolded compile_2_def]
  note b12 = b(12)[unfolded compile_2_def]
  show ?thesis
    by (rule exI[of _ r], rule exI[of _ images], rule exI[of _ labels], rule exI[of _ test],
        rule exI[of _ X_train], rule exI[of _ X_val], rule exI[of _ y_train],
        rule exI[of _ y_val], rule exI[of _ Bs], rule exI[of _ ws], intro conjI)
      (fact b(1,2,3,4,5,6,7,10,11) tb b9 v b12)+
qed

lemma sample_train_ok: "well_formed_train sample_train_df"
  by (simp add: well_formed_train_def sample_train_df_def)

lemma sample_test_ok: "well_formed_test sample_test_df"
  using sample_rows sample_rows_nonempty by (simp add: well_formed_test_def)


lemma echo_keras_forward: "length (forward (echo_keras args) w img) = 10"
  by (simp add: echo_keras_def sample_net_def)







lemma sample_submission:
  "submission_from sample_net sample_images =
     Inr \<lparr>columns = [''ImageId'', ''Label''], df_values = [[1, 3], [2, 3]]\<rparr>"
proof -
  have "length sample_images = 2"
    by (simp add: sample_images_def sample_test_df_def)
  then obtain a b where ab: "sample_images = [a, b]"
    by (metis (no_types, opaque_lifting) One_nat_def Suc_1 length_0_conv length_Suc_conv)
  have "[0..<2] = [0, 1::nat]"
    by (simp add: upt_rec)
  then show ?thesis
    by (simp add: submission_from_def predict_def ab sample_net_def argmax_def submission_of_eq)
qed

text \<open>Notebook 2 on the sample tables, with a transform that inverts every image and a
  model whose metrics are the data it is given: after every epoch the validation report
  is the validation subset of the split, not inverted, and the submission is that of
  the test images as loaded.\<close>

theorem augmentation_spares_validation_and_test_witness:
  "well_formed_train sample_train_df \<and> well_formed_test sample_test_df \<and> rng_ok toy_rng \<and>
   (\<forall>args w img. length (forward
      ((echo_keras :: compile_args \<Rightarrow> (nat, int, (rat image \<times> int) list, nat) network) args)
         w img) = 10) \<and>
   (\<exists>r images labels X_train X_val y_train y_val.
      train_images sample_train_df = Inr images \<and> train_labels sample_train_df = Inr labels \<and>
      test_images sample_test_df = Inr sample_images \<and>
      split_cell toy_rng 0 images labels = Inr ((X_train, X_val, y_train, y_val), 0) \<and>
      notebook_2 toy_rng echo_keras toy_augment 0 0 sample_train_df sample_test_df = Inr r \<and>
      map val_report (history r) = replicate 10 (zip X_val y_val) \<and>
      submission r = \<lparr>columns = [''ImageId'', ''Label''], df_values = [[1, 3], [2, 3]]\<rparr>)"
proof -
  have f: "\<And>args w img. length (forward
      ((echo_keras :: compile_args \<Rightarrow> (nat, int, (rat image \<times> int) list, nat) network) args)
         w img) = 10"
    by (rule echo_keras_forward)
  obtain r images labels test X_train X_val y_train y_val ws where
    a: "train_images sample_train_df = Inr images" "train_labels sample_train_df = Inr labels"
      "test_images sample_test_df = Inr test"
      "split_cell toy_rng 0 images labels = Inr ((X_train, X_val, y_train, y_val), 0)"
      "notebook_2 toy_rng echo_keras toy_augment 0 0 sample_train_df sample_test_df = Inr r"
      "length (history r) = 10"
      "\<forall>e<10. val_report (history r ! e) =
              test_step
                (echo_keras \<lparr>optimizer = ''adam'', loss = ''sparse_categorical_crossentropy'',
                    metrics = [''accuracy'']\<rparr>)
                ((ws :: nat list) ! Suc e) (zip X_val y_val)"
      "submission_from
             (forward
                ((echo_keras :: compile_args \<Rightarrow> (nat, int, (rat image \<times> int) list, nat) network)
                   \<lparr>optimizer = ''adam'', loss = ''sparse_categorical_crossentropy'',
                    metrics = [''accuracy'']\<rparr>)
                (trained_weights r))
             test = Inr (submission r)"
    using augmentation_spares_validation_and_test[where K = echo_keras and A = toy_augment
        and ?w0.0 = 0 and g = 0 and R = toy_rng, OF sample_train_ok sample_test_ok toy_rng_ok f]
    by (elim exE conjE) (rule that, assumption+)
  have t: "test = sample_images"
    using a(3) by (simp add: sample_test_images)
  have e: "\<forall>e<10. val_report (history r ! e) = zip X_val y_val"
    using a(7) by (simp add: echo_keras_def)
  have v: "map val_report (history r) = replicate 10 (zip X_val y_val)"
  proof (rule nth_equalityI)
    show "length (map val_report (history r)) = length (replicate 10 (zip X_val y_val))"
      using a(6) by simp
    show "map val_report (history r) ! i = replicate 10 (zip X_val y_val) ! i"
      if "i < length (map val_report (history r))" for i
      using that a(6) e by simp
  qed
  have "submission_from sample_net sample_images = Inr (submission r)"
    using a(8) by (simp add: echo_keras_def t)
  then have s: "submission r = \<lparr>columns = [''ImageId'', ''Label''], df_values = [[1, 3], [2, 3]]\<rparr>"
    by (simp add: sample_submission)
  have "\<exists>r images labels X_train X_val y_train y_val.
      train_images sample_train_df = Inr images \<and> train_labels sample_train_df = Inr labels \<and>
      test_images sample_test_df = Inr sample_images \<and>
      split_cell toy_rng 0 images labels = Inr ((X_train, X_val, y_train, y_val), 0) \<and>
      notebook_2 toy_rng echo_keras toy_augment 0 0 sample_train_df sample_test_df = Inr r \<and>
      map val_report (history r) = replicate 10 (zip X_val y_val) \<and>
      submission r = \<lparr>columns = [''ImageId'', ''Label''], df_values = [[1, 3], [2, 3]]\<rparr>"
    by (rule exI[of _ r], rule exI[of _ images], rule exI[of _ labels], rule exI[of _ X_train],
        rule exI[of _ X_val], rule exI[of _ y_train], rule exI[of _ y_val], intro conjI)
      (fact a(1,2,4,5) sample_test_images v s)+
  then show ?thesis
    using sample_train_ok sample_test_ok toy_rng_ok f by (intro conjI allI)
qed

end
